theory Spec2Isabelle
  imports Complex_Main "HOL-Library.Log_Nat" "HOL-Library.Multiset" "HOL-Library.Product_Lexorder"
begin

section \<open>The flight search tool of \<open>src/crew.py\<close>\<close>

text \<open>
  The tool \<open>FlightSearchTool._run\<close> obtains a bearer token, fetches the offers of the
  outbound and of the return leg, converts every offer's total into BRL with a rate that
  it looks up once per currency, and sorts each leg by the converted price.

  Modelling decisions:
  \<^item> Everything outside the source file is a \<open>world\<close>: the three HTTP endpoints and the
    builtin \<open>float\<close>. An endpoint's answer may depend on the requests sent before it
    (the history, a \<open>call list\<close>), so asking twice need not give the same answer.
  \<^item> Every function that sends a request takes the history and returns it extended by
    that request: the history is the record of what the invocation did.
  \<^item> An exception is a value \<open>Inl e\<close>; a result is \<open>Inr v\<close>.
  \<^item> The provider's payload is typed: an offer has the keys the tool reads, and the BRL
    entry of a rates response is a float (Python's JSON reader also accepts NaN and the
    infinities). What stays fallible is what the code indexes by position (\<open>[0]\<close>),
    what it parses (\<open>float\<close>, \<open>strptime\<close>) and what it reads from a response body.
  \<^item> A Python \<open>float\<close> is an IEEE 754 double: a finite value (the rational it
    denotes), an infinity or NaN. A product is rounded to the nearest double, ties to
    even, and overflows to an infinity; \<open>round(x, 2)\<close> is the nearest double of the
    correctly rounded two-decimal value. The two zeros are one value, as they are for
    every comparison.
  \<^item> \<open>list.sort\<close> is CPython's algorithm (\<open>listobject.c\<close> of version 3.11) for a
    list shorter than 64: the initial run is found, reversed when it descends, and every
    later element is placed by binary insertion, comparing keys with \<open><\<close> only. (A
    longer list is cut into such runs, which are then merged; both give the stable
    sorted list when \<open><\<close> orders the keys, and the provider is asked for 20 offers at
    most.)
\<close>

subsection \<open>Errors, responses and the request history\<close>

datatype error =
    RequestException
  | JSONDecodeError
  | TypeError
  | KeyError string
  | IndexError
  | ValueError

text \<open>
  What \<open>r.json()\<close> makes of a response body: it raises on text that is not JSON
  (\<open>NotJson\<close>), or gives a JSON value that is not an object (\<open>JsonOther\<close>: subscripting
  it by a key raises TypeError), or gives an object.
\<close>

datatype 'a body = NotJson | JsonOther | JsonObject "string \<rightharpoonup> 'a"

text \<open>
  What \<open>requests.get\<close> or \<open>requests.post\<close> does: it raises (no connection, timeout),
  or it returns a response with a status code and a body.
\<close>

datatype 'a reply = NoReply | Reply nat "'a body"

datatype call =
    TokenCall
  | SearchCall string string string string
  | RateCall string

subsection \<open>Python floats\<close>

text \<open>
  A double: a finite value, given by the rational number it denotes, or an infinity, or
  NaN. \<open>flt\<close> is \<open><\<close> and \<open>fle\<close> is \<open><=\<close>: both are false as soon as one side is NaN.
\<close>

datatype pyfloat = Finite rat | PosInf | NegInf | NaN

fun flt :: "pyfloat \<Rightarrow> pyfloat \<Rightarrow> bool" where
  "flt NaN _ = False"
| "flt _ NaN = False"
| "flt (Finite a) (Finite b) = (a < b)"
| "flt (Finite a) PosInf = True"
| "flt (Finite a) NegInf = False"
| "flt PosInf _ = False"
| "flt NegInf NegInf = False"
| "flt NegInf _ = True"

fun fle :: "pyfloat \<Rightarrow> pyfloat \<Rightarrow> bool" where
  "fle NaN _ = False"
| "fle _ NaN = False"
| "fle (Finite a) (Finite b) = (a \<le> b)"
| "fle (Finite a) PosInf = True"
| "fle (Finite a) NegInf = False"
| "fle PosInf PosInf = True"
| "fle PosInf _ = False"
| "fle NegInf _ = True"

text \<open>\<open>pow2 e\<close> is 2 to the power \<open>e\<close>, for an integer \<open>e\<close>.\<close>

definition pow2 :: "int \<Rightarrow> rat" where
  "pow2 e = (if 0 \<le> e then 2 ^ nat e else 1 / 2 ^ nat (- e))"

text \<open>The nearest integer, a value halfway between two integers going to the even one.\<close>

definition half_even :: "rat \<Rightarrow> int" where
  "half_even y =
     (let f = \<lfloor>y\<rfloor>; d = y - of_int f
      in if d < 1 / 2 then f else if 1 / 2 < d then f + 1 else if even f then f else f + 1)"

text \<open>
  The exponent of a positive rational: the \<open>e\<close> with \<open>2^e \<le> q < 2^(e+1)\<close>, from the bit
  lengths of numerator and denominator.
\<close>

definition binade :: "rat \<Rightarrow> int" where
  "binade q =
     (case quotient_of q of (a, b) \<Rightarrow>
        (let d = bitlen a - bitlen b in if pow2 d \<le> q then d else d - 1))"

text \<open>
  The double nearest to a rational (round to nearest, ties to even): 53 significant
  bits, the exponent not below -1022 (subnormal numbers below), an infinity from
  \<open>2^1024\<close> on.
\<close>

definition round_to_double :: "rat \<Rightarrow> pyfloat" where
  "round_to_double q =
     (if q = 0 then Finite 0
      else
        (let u = pow2 (max (binade \<bar>q\<bar>) (- 1022) - 52);
             v = of_int (half_even (\<bar>q\<bar> / u)) * u
         in if pow2 1024 \<le> v then (if q < 0 then NegInf else PosInf)
            else Finite (if q < 0 then - v else v)))"

text \<open>\<open>x * y\<close> on doubles.\<close>

fun fmul :: "pyfloat \<Rightarrow> pyfloat \<Rightarrow> pyfloat" where
  "fmul NaN _ = NaN"
| "fmul _ NaN = NaN"
| "fmul (Finite a) (Finite b) = round_to_double (a * b)"
| "fmul (Finite a) PosInf = (if a = 0 then NaN else if 0 < a then PosInf else NegInf)"
| "fmul (Finite a) NegInf = (if a = 0 then NaN else if 0 < a then NegInf else PosInf)"
| "fmul PosInf (Finite b) = (if b = 0 then NaN else if 0 < b then PosInf else NegInf)"
| "fmul NegInf (Finite b) = (if b = 0 then NaN else if 0 < b then NegInf else PosInf)"
| "fmul PosInf PosInf = PosInf"
| "fmul PosInf NegInf = NegInf"
| "fmul NegInf PosInf = NegInf"
| "fmul NegInf NegInf = PosInf"

text \<open>
  \<open>round(x, 2)\<close>: NaN and the infinities round to themselves; a finite value is
  rounded correctly to two decimals, halfway cases (exact in binary) to the even
  neighbour, and the decimal result is read back as the nearest double.
\<close>

fun py_round2 :: "pyfloat \<Rightarrow> pyfloat" where
  "py_round2 (Finite q) = round_to_double (of_int (half_even (q * 100)) / 100)"
| "py_round2 x = x"

subsection \<open>\<open>list.sort\<close>\<close>

text \<open>
  \<open>count_run\<close>: the run at the head of the list. It descends when the second element
  is less than the first, and then goes on while each element is less than the one
  before it, and is reversed; otherwise it goes on until an element is less than the one
  before it. \<open>lt\<close> is \<open><\<close> on the keys. The run comes with the rest of the list.
\<close>

fun asc_run :: "('a \<Rightarrow> 'a \<Rightarrow> bool) \<Rightarrow> 'a \<Rightarrow> 'a list \<Rightarrow> 'a list \<times> 'a list" where
  "asc_run lt prev [] = ([], [])"
| "asc_run lt prev (x # xs) =
     (if lt x prev then ([], x # xs)
      else (case asc_run lt x xs of (pre, rest) \<Rightarrow> (x # pre, rest)))"

fun desc_run :: "('a \<Rightarrow> 'a \<Rightarrow> bool) \<Rightarrow> 'a \<Rightarrow> 'a list \<Rightarrow> 'a list \<times> 'a list" where
  "desc_run lt prev [] = ([], [])"
| "desc_run lt prev (x # xs) =
     (if lt x prev then (case desc_run lt x xs of (pre, rest) \<Rightarrow> (x # pre, rest))
      else ([], x # xs))"

fun count_run :: "('a \<Rightarrow> 'a \<Rightarrow> bool) \<Rightarrow> 'a list \<Rightarrow> 'a list \<times> 'a list" where
  "count_run lt [] = ([], [])"
| "count_run lt [x] = ([x], [])"
| "count_run lt (x # y # ys) =
     (if lt y x then (case desc_run lt y ys of (pre, rest) \<Rightarrow> (rev (x # y # pre), rest))
      else (case asc_run lt y ys of (pre, rest) \<Rightarrow> (x # y # pre, rest)))"

text \<open>
  \<open>binarysort\<close>: every element after the run is the pivot in turn. Its place among
  the elements before it is found by bisection between \<open>l\<close> and \<open>r\<close>: the middle
  \<open>p\<close> becomes \<open>r\<close> when the pivot is less than the element at \<open>p\<close>, and \<open>p + 1\<close>
  becomes \<open>l\<close> otherwise, until \<open>l\<close> meets \<open>r\<close>; the pivot is put there.
\<close>

function bisect :: "('a \<Rightarrow> 'a \<Rightarrow> bool) \<Rightarrow> 'a \<Rightarrow> 'a list \<Rightarrow> nat \<Rightarrow> nat \<Rightarrow> nat" where
  "bisect lt pivot xs l r =
     (if l < r
      then (let p = l + (r - l) div 2
            in if lt pivot (xs ! p) then bisect lt pivot xs l p else bisect lt pivot xs (p + 1) r)
      else l)"
  by pat_completeness auto
termination
  by (relation "measure (\<lambda>(lt, pivot, xs, l, r). r - l)") auto

declare bisect.simps [simp del]

definition insert_pivot :: "('a \<Rightarrow> 'a \<Rightarrow> bool) \<Rightarrow> 'a list \<Rightarrow> 'a \<Rightarrow> 'a list" where
  "insert_pivot lt acc pivot =
     (let l = bisect lt pivot acc 0 (length acc) in take l acc @ pivot # drop l acc)"

definition binarysort :: "('a \<Rightarrow> 'a \<Rightarrow> bool) \<Rightarrow> 'a list \<Rightarrow> 'a list \<Rightarrow> 'a list" where
  "binarysort lt pre rest = foldl (insert_pivot lt) pre rest"

text \<open>\<open>xs.sort(key=key)\<close> for float keys.\<close>

definition list_sort :: "('a \<Rightarrow> pyfloat) \<Rightarrow> 'a list \<Rightarrow> 'a list" where
  "list_sort key xs =
     (case count_run (\<lambda>a b. flt (key a) (key b)) xs of
        (pre, rest) \<Rightarrow> binarysort (\<lambda>a b. flt (key a) (key b)) pre rest)"

subsection \<open>The provider's data and the tool's output\<close>

record segment =
  carrierCode :: string
  departure_at :: string
  arrival_at :: string
  numberOfStops :: int

record itinerary =
  segments :: "segment list"

record price_info =
  currency :: string
  grandTotal :: string

record raw_offer =
  itineraries :: "itinerary list"
  price :: price_info
  numberOfBookableSeats :: int

record normalized_offer =
  company :: string
  departure_time :: string
  arrival_time :: string
  stops :: int
  seats_remaining :: int
  price_brl :: pyfloat

record trip_result =
  outbound :: "normalized_offer list"
  return :: "normalized_offer list"

record world =
  token_endpoint :: "call list \<Rightarrow> string reply"
  offers_endpoint :: "call list \<Rightarrow> string \<Rightarrow> string \<Rightarrow> string \<Rightarrow> string \<Rightarrow> raw_offer list reply"
  rates_endpoint :: "call list \<Rightarrow> string \<Rightarrow> (string \<rightharpoonup> pyfloat) reply"
  py_float :: "string \<Rightarrow> error + pyfloat"

subsection \<open>Helpers\<close>

text \<open>\<open>companies = {"LA": "LATAM", "G3": "GOL", "AD": "Azul", "2Z": "Voepass"}\<close>\<close>

definition companies :: "(string \<times> string) list" where
  "companies = [(''LA'', ''LATAM''), (''G3'', ''GOL''), (''AD'', ''Azul''), (''2Z'', ''Voepass'')]"

text \<open>\<open>companies.get(code, code)\<close>\<close>

definition company_name :: "string \<Rightarrow> string" where
  "company_name code = (case map_of companies code of None \<Rightarrow> code | Some n \<Rightarrow> n)"

text \<open>\<open>r.json()[key]\<close>\<close>

definition json_item :: "'a body \<Rightarrow> string \<Rightarrow> error + 'a" where
  "json_item b k =
     (case b of
        NotJson \<Rightarrow> Inl JSONDecodeError
      | JsonOther \<Rightarrow> Inl TypeError
      | JsonObject m \<Rightarrow> (case m k of None \<Rightarrow> Inl (KeyError k) | Some v \<Rightarrow> Inr v))"

subsection \<open>\<open>_to_iso\<close>: \<open>strptime(date_br, "%d/%m/%Y").strftime("%Y-%m-%d")\<close>\<close>

text \<open>
  \<open>strptime\<close> compiles the format into a regular expression and demands that it
  consume the whole string: \<open>%d\<close> is \<open>3[0-1]|[1-2]\d|0[1-9]|[1-9]| [1-9]\<close>, \<open>%m\<close> is
  \<open>1[0-2]|0[1-9]|[1-9]\<close>, \<open>%Y\<close> is \<open>\d\d\d\d\<close>. None of the three matches a slash, so
  the string is split at its slashes into exactly three fields. The date must then
  exist in the calendar (year 1 at least, the day within the month). A string is a list
  of 8-bit characters here, so \<open>\d\<close> is one of the ten ASCII digits.
\<close>

definition is_digit :: "char \<Rightarrow> bool" where
  "is_digit c = (48 \<le> (of_char c :: nat) \<and> (of_char c :: nat) \<le> 57)"

definition digit_val :: "char \<Rightarrow> nat" where
  "digit_val c = of_char c - 48"

fun split_on :: "char \<Rightarrow> string \<Rightarrow> string list" where
  "split_on sep [] = [[]]"
| "split_on sep (c # cs) =
     (if c = sep then [] # split_on sep cs
      else (case split_on sep cs of [] \<Rightarrow> [[c]] | p # ps \<Rightarrow> (c # p) # ps))"

fun day_field :: "string \<Rightarrow> nat option" where
  "day_field [a] = (if is_digit a \<and> a \<noteq> CHR ''0'' then Some (digit_val a) else None)"
| "day_field [a, b] =
     (if a = CHR ''3'' \<and> (b = CHR ''0'' \<or> b = CHR ''1'') then Some (30 + digit_val b)
      else if (a = CHR ''1'' \<or> a = CHR ''2'') \<and> is_digit b then Some (10 * digit_val a + digit_val b)
      else if (a = CHR ''0'' \<or> a = CHR '' '') \<and> is_digit b \<and> b \<noteq> CHR ''0'' then Some (digit_val b)
      else None)"
| "day_field _ = None"

fun month_field :: "string \<Rightarrow> nat option" where
  "month_field [a] = (if is_digit a \<and> a \<noteq> CHR ''0'' then Some (digit_val a) else None)"
| "month_field [a, b] =
     (if a = CHR ''1'' \<and> (b = CHR ''0'' \<or> b = CHR ''1'' \<or> b = CHR ''2'') then Some (10 + digit_val b)
      else if a = CHR ''0'' \<and> is_digit b \<and> b \<noteq> CHR ''0'' then Some (digit_val b)
      else None)"
| "month_field _ = None"

fun year_field :: "string \<Rightarrow> nat option" where
  "year_field [a, b, c, d] =
     (if is_digit a \<and> is_digit b \<and> is_digit c \<and> is_digit d
      then Some (1000 * digit_val a + 100 * digit_val b + 10 * digit_val c + digit_val d)
      else None)"
| "year_field _ = None"

definition is_leap :: "nat \<Rightarrow> bool" where
  "is_leap y = (y mod 4 = 0 \<and> (y mod 100 \<noteq> 0 \<or> y mod 400 = 0))"

definition days_in_month :: "nat \<Rightarrow> nat \<Rightarrow> nat" where
  "days_in_month y m =
     (if m = 2 then (if is_leap y then 29 else 28)
      else if m = 4 \<or> m = 6 \<or> m = 9 \<or> m = 11 then 30 else 31)"

text \<open>The parsed date as (year, month, day).\<close>

definition strptime :: "string \<Rightarrow> error + (nat \<times> nat \<times> nat)" where
  "strptime s =
     (case split_on CHR ''/'' s of
        [d, m, y] \<Rightarrow>
          (case (day_field d, month_field m, year_field y) of
             (Some dd, Some mm, Some yy) \<Rightarrow>
               if 1 \<le> yy \<and> dd \<le> days_in_month yy mm then Inr (yy, mm, dd) else Inl ValueError
           | _ \<Rightarrow> Inl ValueError)
      | _ \<Rightarrow> Inl ValueError)"

definition digit_char :: "nat \<Rightarrow> char" where
  "digit_char n = char_of (48 + n mod 10)"

text \<open>
  \<open>%Y-%m-%d\<close>: month and day on two digits, the year on four (for a year below 1000 the
  C library decides the padding; the model pads with zeros).
\<close>

definition strftime :: "nat \<times> nat \<times> nat \<Rightarrow> string" where
  "strftime t =
     (case t of (y, m, d) \<Rightarrow>
        [digit_char (y div 1000), digit_char (y div 100), digit_char (y div 10), digit_char y,
         CHR ''-'', digit_char (m div 10), digit_char m,
         CHR ''-'', digit_char (d div 10), digit_char d])"

definition to_iso :: "string \<Rightarrow> error + string" where
  "to_iso date_br = (case strptime date_br of Inl e \<Rightarrow> Inl e | Inr t \<Rightarrow> Inr (strftime t))"

subsection \<open>The three requests\<close>

text \<open>\<open>_get_rate\<close>: one GET, then \<open>r.json()["rates"]["BRL"]\<close>. The status is not read.\<close>

definition get_rate :: "world \<Rightarrow> string \<Rightarrow> call list \<Rightarrow> (error + pyfloat) \<times> call list" where
  "get_rate w cur calls =
     (case rates_endpoint w calls cur of
        NoReply \<Rightarrow> (Inl RequestException, calls @ [RateCall cur])
      | Reply status b \<Rightarrow>
          (case json_item b ''rates'' of
             Inl e \<Rightarrow> (Inl e, calls @ [RateCall cur])
           | Inr rates \<Rightarrow>
               (case rates ''BRL'' of
                  None \<Rightarrow> (Inl (KeyError ''BRL''), calls @ [RateCall cur])
                | Some v \<Rightarrow> (Inr v, calls @ [RateCall cur]))))"

text \<open>\<open>_amadeus_token\<close>: one POST, then \<open>r.json()["access_token"]\<close>.\<close>

definition amadeus_token :: "world \<Rightarrow> call list \<Rightarrow> (error + string) \<times> call list" where
  "amadeus_token w calls =
     (case token_endpoint w calls of
        NoReply \<Rightarrow> (Inl RequestException, calls @ [TokenCall])
      | Reply status b \<Rightarrow> (json_item b ''access_token'', calls @ [TokenCall]))"

text \<open>\<open>_search_leg\<close>: one GET, then \<open>r.json()["data"]\<close>.\<close>

definition search_leg ::
  "world \<Rightarrow> string \<Rightarrow> string \<Rightarrow> string \<Rightarrow> string \<Rightarrow> call list
     \<Rightarrow> (error + raw_offer list) \<times> call list" where
  "search_leg w token origin dest date calls =
     (case offers_endpoint w calls token origin dest date of
        NoReply \<Rightarrow> (Inl RequestException, calls @ [SearchCall token origin dest date])
      | Reply status b \<Rightarrow> (json_item b ''data'', calls @ [SearchCall token origin dest date]))"

subsection \<open>\<open>FlightSearchTool._run\<close>\<close>

text \<open>
  Lines 75 to 80: the token, then the two legs. Python evaluates the dictionary display
  in order, and each call's arguments before the call: the departure date is converted,
  the outbound leg fetched, the return date converted, the return leg fetched.
\<close>

definition fetch_legs ::
  "world \<Rightarrow> string \<Rightarrow> string \<Rightarrow> string \<Rightarrow> string
     \<Rightarrow> (error + raw_offer list \<times> raw_offer list) \<times> call list" where
  "fetch_legs w origin destination departure_date return_date =
     (case amadeus_token w [] of
        (Inl e, c1) \<Rightarrow> (Inl e, c1)
      | (Inr token, c1) \<Rightarrow>
          (case to_iso departure_date of
             Inl e \<Rightarrow> (Inl e, c1)
           | Inr d1 \<Rightarrow>
               (case search_leg w token origin destination d1 c1 of
                  (Inl e, c2) \<Rightarrow> (Inl e, c2)
                | (Inr outs, c2) \<Rightarrow>
                    (case to_iso return_date of
                       Inl e \<Rightarrow> (Inl e, c2)
                     | Inr d2 \<Rightarrow>
                         (case search_leg w token destination origin d2 c2 of
                            (Inl e, c3) \<Rightarrow> (Inl e, c3)
                          | (Inr rets, c3) \<Rightarrow> (Inr (outs, rets), c3))))))"

text \<open>Lines 85 to 87: \<open>if cur not in rates: rates[cur] = _get_rate(cur)\<close>.\<close>

definition ensure_rate ::
  "world \<Rightarrow> string \<Rightarrow> (string \<rightharpoonup> pyfloat) \<Rightarrow> call list
     \<Rightarrow> (error + (string \<rightharpoonup> pyfloat)) \<times> call list" where
  "ensure_rate w cur rates calls =
     (if rates cur = None
      then (case get_rate w cur calls of
              (Inl e, c) \<Rightarrow> (Inl e, c)
            | (Inr v, c) \<Rightarrow> (Inr (rates(cur \<mapsto> v)), c))
      else (Inr rates, calls))"

text \<open>Line 88: \<open>o["itineraries"][0]["segments"][0]\<close>.\<close>

definition first_segment :: "raw_offer \<Rightarrow> error + segment" where
  "first_segment off =
     (case itineraries off of
        [] \<Rightarrow> Inl IndexError
      | it # _ \<Rightarrow> (case segments it of [] \<Rightarrow> Inl IndexError | seg # _ \<Rightarrow> Inr seg))"

text \<open>Lines 88 to 97: the dictionary built for one offer, with the rates as they stand.\<close>

definition normalize_offer :: "world \<Rightarrow> (string \<rightharpoonup> pyfloat) \<Rightarrow> raw_offer \<Rightarrow> error + normalized_offer" where
  "normalize_offer w rates off =
     (case first_segment off of
        Inl e \<Rightarrow> Inl e
      | Inr seg \<Rightarrow>
          (case py_float w (grandTotal (price off)) of
             Inl e \<Rightarrow> Inl e
           | Inr amount \<Rightarrow>
               (case rates (currency (price off)) of
                  None \<Rightarrow> Inl (KeyError (currency (price off)))
                | Some rate \<Rightarrow>
                    Inr \<lparr>company = company_name (carrierCode seg),
                         departure_time = departure_at seg,
                         arrival_time = arrival_at seg,
                         stops = numberOfStops seg,
                         seats_remaining = numberOfBookableSeats off,
                         price_brl = py_round2 (fmul amount rate)\<rparr>)))"

text \<open>
  Lines 84 to 98: the loop over one leg's offers. \<open>res\<close> is \<open>result[leg_name]\<close>, to
  which each offer's dictionary is appended.
\<close>

fun leg_loop ::
  "world \<Rightarrow> raw_offer list \<Rightarrow> (string \<rightharpoonup> pyfloat) \<Rightarrow> normalized_offer list \<Rightarrow> call list
     \<Rightarrow> (error + (string \<rightharpoonup> pyfloat) \<times> normalized_offer list) \<times> call list" where
  "leg_loop w [] rates res calls = (Inr (rates, res), calls)"
| "leg_loop w (off # offers) rates res calls =
     (case ensure_rate w (currency (price off)) rates calls of
        (Inl e, c) \<Rightarrow> (Inl e, c)
      | (Inr rates', c) \<Rightarrow>
          (case normalize_offer w rates' off of
             Inl e \<Rightarrow> (Inl e, c)
           | Inr n \<Rightarrow> leg_loop w offers rates' (res @ [n]) c))"

text \<open>
  Lines 82 to 99: one rate table for both legs, the outbound leg first; each leg's list
  is sorted by \<open>price_brl\<close> once its loop is over. The final rate table is returned
  beside the result.
\<close>

definition rank_legs ::
  "world \<Rightarrow> raw_offer list \<Rightarrow> raw_offer list \<Rightarrow> call list
     \<Rightarrow> (error + trip_result \<times> (string \<rightharpoonup> pyfloat)) \<times> call list" where
  "rank_legs w outs rets calls =
     (case leg_loop w outs Map.empty [] calls of
        (Inl e, c) \<Rightarrow> (Inl e, c)
      | (Inr (rates1, res1), c1) \<Rightarrow>
          (case leg_loop w rets rates1 [] c1 of
             (Inl e, c) \<Rightarrow> (Inl e, c)
           | (Inr (rates2, res2), c2) \<Rightarrow>
               (Inr (\<lparr>outbound = list_sort price_brl res1,
                      return = list_sort price_brl res2\<rparr>, rates2), c2)))"

text \<open>
  The whole of \<open>_run\<close>: the result (before \<open>json.dumps\<close>) or the exception, and the
  requests the invocation sent, in order.
\<close>

definition run ::
  "world \<Rightarrow> string \<Rightarrow> string \<Rightarrow> string \<Rightarrow> string \<Rightarrow> (error + trip_result) \<times> call list" where
  "run w origin destination departure_date return_date =
     (case fetch_legs w origin destination departure_date return_date of
        (Inl e, c) \<Rightarrow> (Inl e, c)
      | (Inr (outs, rets), c) \<Rightarrow>
          (case rank_legs w outs rets c of
             (Inl e, c') \<Rightarrow> (Inl e, c')
           | (Inr (result, rates), c') \<Rightarrow> (Inr result, c')))"

text \<open>The searches and the rate lookups among the requests sent.\<close>

fun search_calls :: "call list \<Rightarrow> call list" where
  "search_calls [] = []"
| "search_calls (SearchCall t a b d # cs) = SearchCall t a b d # search_calls cs"
| "search_calls (_ # cs) = search_calls cs"

fun rate_calls :: "call list \<Rightarrow> string list" where
  "rate_calls [] = []"
| "rate_calls (RateCall cur # cs) = cur # rate_calls cs"
| "rate_calls (_ # cs) = rate_calls cs"

subsection \<open>Notions used to state the properties\<close>

text \<open>
  Every rate in the table is one that a lookup of \<open>_get_rate\<close> for that currency
  returned, at some point of the history.
\<close>

definition looked_up :: "world \<Rightarrow> (string \<rightharpoonup> pyfloat) \<Rightarrow> bool" where
  "looked_up w rates =
     (\<forall>cur v. rates cur = Some v \<longrightarrow> (\<exists>h. get_rate w cur h = (Inr v, h @ [RateCall cur])))"

text \<open>
  An order-preserving rank of the floats that are not NaN, into a linear order: the
  negative infinity, the finite values, the positive infinity.
\<close>

definition rank :: "pyfloat \<Rightarrow> nat \<times> rat" where
  "rank x = (case x of NegInf \<Rightarrow> (0, 0) | Finite q \<Rightarrow> (1, q) | PosInf \<Rightarrow> (2, 0) | NaN \<Rightarrow> (3, 0))"

text \<open>The currencies that occur in a list of offers.\<close>

definition currencies :: "raw_offer list \<Rightarrow> string set" where
  "currencies offers = (\<lambda>off. currency (price off)) ` set offers"

text \<open>
  The names as claim C9 lists them: LATAM, GOL, Azul, Voepass for LA, G3, AD, 2Z, and
  the code itself for any other code.
\<close>

definition display_name :: "string \<Rightarrow> string" where
  "display_name code =
     (if code = ''LA'' then ''LATAM'' else if code = ''G3'' then ''GOL''
      else if code = ''AD'' then ''Azul'' else if code = ''2Z'' then ''Voepass'' else code)"

subsection \<open>Concrete worlds\<close>

text \<open>A direct flight with the given carrier, currency and total.\<close>

definition direct_offer :: "string \<Rightarrow> string \<Rightarrow> string \<Rightarrow> raw_offer" where
  "direct_offer code cur amount =
     \<lparr>itineraries =
        [\<lparr>segments =
            [\<lparr>carrierCode = code, departure_at = ''2024-12-25T08:00:00'',
              arrival_at = ''2024-12-25T18:30:00'', numberOfStops = 0\<rparr>]\<rparr>],
      price = \<lparr>currency = cur, grandTotal = amount\<rparr>,
      numberOfBookableSeats = 9\<rparr>"

text \<open>
  GRU to JFK through BSB: two segments by different carriers, the first one landing at
  09:45, the second at 20:10.
\<close>

definition connecting_offer :: raw_offer where
  "connecting_offer =
     \<lparr>itineraries =
        [\<lparr>segments =
            [\<lparr>carrierCode = ''2Z'', departure_at = ''2024-12-25T08:00:00'',
              arrival_at = ''2024-12-25T09:45:00'', numberOfStops = 0\<rparr>,
             \<lparr>carrierCode = ''AA'', departure_at = ''2024-12-25T11:00:00'',
              arrival_at = ''2024-12-25T20:10:00'', numberOfStops = 1\<rparr>]\<rparr>],
      price = \<lparr>currency = ''USD'', grandTotal = ''150''\<rparr>,
      numberOfBookableSeats = 4\<rparr>"

text \<open>\<open>float\<close> on the totals that the examples use.\<close>

definition read_decimal :: "string \<Rightarrow> error + pyfloat" where
  "read_decimal s =
     (case map_of
        [(''200'', Finite 200), (''150'', Finite 150), (''180'', Finite 180),
         (''-10.00'', Finite (- 10)), (''15'', Finite 15), (''5'', Finite 5), (''nan'', NaN)] s of
        None \<Rightarrow> Inl ValueError
      | Some v \<Rightarrow> Inr v)"

definition token_reply :: "string reply" where
  "token_reply = Reply 200 (JsonObject [''access_token'' \<mapsto> ''tok''])"

definition offers_reply :: "nat \<Rightarrow> raw_offer list \<Rightarrow> raw_offer list reply" where
  "offers_reply status offers = Reply status (JsonObject [''data'' \<mapsto> offers])"

text \<open>
  A world that answers the token request with \<open>token\<close>, a search from GRU with \<open>out\<close>,
  any other search with \<open>ret\<close>, and a rate request with the rate \<open>rate h cur\<close>, which may
  depend on the history \<open>h\<close>.
\<close>

definition example_world ::
  "string reply \<Rightarrow> raw_offer list reply \<Rightarrow> raw_offer list reply \<Rightarrow> (call list \<Rightarrow> string \<Rightarrow> pyfloat)
     \<Rightarrow> world" where
  "example_world token out ret rate =
     \<lparr>token_endpoint = (\<lambda>h. token),
      offers_endpoint = (\<lambda>h t a b d. if a = ''GRU'' then out else ret),
      rates_endpoint = (\<lambda>h cur. Reply 200 (JsonObject [''rates'' \<mapsto> [''BRL'' \<mapsto> rate h cur]])),
      py_float = read_decimal\<rparr>"

text \<open>The scenario of the specification: 200 USD, 150 EUR, 180 USD at 5.0 and 5.5.\<close>

definition scenario_offers :: "raw_offer list" where
  "scenario_offers =
     [direct_offer ''LA'' ''USD'' ''200'', direct_offer ''G3'' ''EUR'' ''150'',
      direct_offer ''XX'' ''USD'' ''180'']"

definition scenario_rate :: "call list \<Rightarrow> string \<Rightarrow> pyfloat" where
  "scenario_rate h cur = (if cur = ''USD'' then Finite 5 else Finite (11 / 2))"

definition scenario_world :: world where
  "scenario_world =
     example_world token_reply (offers_reply 200 scenario_offers)
       (offers_reply 200 [connecting_offer]) scenario_rate"

text \<open>
  A world whose rates drift: the rate answered is the number of requests sent so far,
  so a second lookup of a currency would give another rate than the first.
\<close>

definition drifting_rate :: "call list \<Rightarrow> string \<Rightarrow> pyfloat" where
  "drifting_rate h cur = Finite (of_nat (length h))"

definition drifting_world :: world where
  "drifting_world =
     example_world token_reply (offers_reply 200 scenario_offers)
       (offers_reply 200 [direct_offer ''AD'' ''USD'' ''200'']) drifting_rate"

text \<open>Worlds in which the token request, or the outbound search, finds no server.\<close>

definition no_auth_world :: world where
  "no_auth_world =
     example_world NoReply (offers_reply 200 scenario_offers) (offers_reply 200 []) scenario_rate"

definition no_search_world :: world where
  "no_search_world = example_world token_reply NoReply (offers_reply 200 []) scenario_rate"

text \<open>A world whose search endpoint answers 503 with offers in the body.\<close>

definition status503_world :: world where
  "status503_world =
     example_world token_reply (offers_reply 503 [direct_offer ''LA'' ''USD'' ''200''])
       (offers_reply 503 []) scenario_rate"

text \<open>A world whose provider lists a negative total.\<close>

definition negative_world :: world where
  "negative_world =
     example_world token_reply (offers_reply 200 [direct_offer ''LA'' ''USD'' ''-10.00''])
       (offers_reply 200 []) scenario_rate"

text \<open>
  A world whose provider lists a total that \<open>float\<close> reads as NaN, between 15 and 5,
  at the rate 1.
\<close>

definition unit_rate :: "call list \<Rightarrow> string \<Rightarrow> pyfloat" where
  "unit_rate h cur = Finite 1"

definition nan_world :: world where
  "nan_world =
     example_world token_reply
       (offers_reply 200
          [direct_offer ''LA'' ''USD'' ''15'', direct_offer ''G3'' ''USD'' ''nan'',
           direct_offer ''AD'' ''USD'' ''5''])
       (offers_reply 200 []) unit_rate"

text \<open>A world whose provider lists an offer with an empty carrier code.\<close>

definition anonymous_world :: world where
  "anonymous_world =
     example_world token_reply (offers_reply 200 [direct_offer [] ''USD'' ''200''])
       (offers_reply 200 []) scenario_rate"

text \<open>A world whose provider delivers 21 offers for the outbound leg.\<close>

definition crowded_world :: world where
  "crowded_world =
     example_world token_reply (offers_reply 200 (replicate 21 (direct_offer ''LA'' ''USD'' ''200'')))
       (offers_reply 200 [connecting_offer]) scenario_rate"

text \<open>The result of the example invocation, when there is one.\<close>

definition example_result :: "world \<Rightarrow> trip_result" where
  "example_result w = projr (fst (run w ''GRU'' ''JFK'' ''25/12/2024'' ''02/01/2025''))"

text \<open>What the tool makes of \<open>direct_offer\<close> and of \<open>connecting_offer\<close>, for a price.\<close>

definition direct_result :: "string \<Rightarrow> pyfloat \<Rightarrow> normalized_offer" where
  "direct_result name p =
     \<lparr>company = name, departure_time = ''2024-12-25T08:00:00'',
      arrival_time = ''2024-12-25T18:30:00'', stops = 0, seats_remaining = 9, price_brl = p\<rparr>"

definition connecting_result :: "pyfloat \<Rightarrow> normalized_offer" where
  "connecting_result p =
     \<lparr>company = ''Voepass'', departure_time = ''2024-12-25T08:00:00'',
      arrival_time = ''2024-12-25T09:45:00'', stops = 0, seats_remaining = 4, price_brl = p\<rparr>"

text \<open>The requests of the example invocation up to the second search.\<close>

definition fetched :: "call list" where
  "fetched =
     [TokenCall, SearchCall ''tok'' ''GRU'' ''JFK'' ''2024-12-25'',
      SearchCall ''tok'' ''JFK'' ''GRU'' ''2025-01-02'']"

section \<open>Properties\<close>

subsection \<open>\<open>list.sort\<close> always permutes\<close>

lemma asc_run_append: "asc_run lt prev xs = (pre, rest) \<Longrightarrow> xs = pre @ rest"
  by (induction xs arbitrary: prev pre rest) (auto split: if_splits prod.splits)

lemma desc_run_append: "desc_run lt prev xs = (pre, rest) \<Longrightarrow> xs = pre @ rest"
  by (induction xs arbitrary: prev pre rest) (auto split: if_splits prod.splits)

lemma count_run_mset: "count_run lt xs = (pre, rest) \<Longrightarrow> mset pre + mset rest = mset xs"
  by (cases "(lt, xs)" rule: count_run.cases)
    (auto split: if_splits prod.splits dest!: asc_run_append desc_run_append)

lemma insert_pivot_mset: "mset (insert_pivot lt acc x) = add_mset x (mset acc)"
proof -
  have "mset (take l acc @ x # drop l acc) = add_mset x (mset acc)" for l
    by (metis append_take_drop_id mset.simps(2) mset_append union_mset_add_mset_right)
  then show ?thesis by (simp add: insert_pivot_def Let_def)
qed

lemma binarysort_mset: "mset (binarysort lt pre rest) = mset pre + mset rest"
  unfolding binarysort_def
  by (induction rest arbitrary: pre) (simp_all add: insert_pivot_mset)

lemma mset_list_sort: "mset (list_sort key xs) = mset xs"
  by (cases "count_run (\<lambda>a b. flt (key a) (key b)) xs")
    (simp add: list_sort_def binarysort_mset count_run_mset)

lemma length_list_sort: "length (list_sort key xs) = length xs"
  using mset_list_sort [of key xs] by (metis size_mset)

lemma set_list_sort: "set (list_sort key xs) = set xs"
  using mset_list_sort [of key xs] by (metis set_mset_mset)

subsection \<open>\<open>list.sort\<close> is a stable sort when \<open><\<close> orders the keys\<close>

lemma asc_run_sorted:
  assumes "\<And>a b. a \<in> A \<Longrightarrow> b \<in> A \<Longrightarrow> lt a b \<longleftrightarrow> f a < f b"
    and "asc_run lt prev xs = (pre, rest)" and "prev \<in> A" and "set xs \<subseteq> A"
  shows "sorted (map f (prev # pre))"
  using assms(2-)
proof (induction xs arbitrary: prev pre rest)
  case Nil
  then show ?case by simp
next
  case (Cons x xs)
  show ?case
  proof (cases "lt x prev")
    case True
    with Cons.prems show ?thesis by simp
  next
    case False
    then obtain pre' where r: "asc_run lt x xs = (pre', rest)" and pre: "pre = x # pre'"
      using Cons.prems(1) by (auto split: prod.splits)
    from Cons.prems have "x \<in> A" "set xs \<subseteq> A" by auto
    from Cons.IH [OF r this] have "sorted (map f (x # pre'))" .
    moreover from False assms(1) [of x prev] Cons.prems \<open>x \<in> A\<close> have "f prev \<le> f x" by auto
    ultimately show ?thesis using pre by auto
  qed
qed

lemma desc_run_sorted:
  fixes f :: "'a \<Rightarrow> 'b::linorder"
  assumes "\<And>a b. a \<in> A \<Longrightarrow> b \<in> A \<Longrightarrow> lt a b \<longleftrightarrow> f a < f b"
    and "desc_run lt prev xs = (pre, rest)" and "prev \<in> A" and "set xs \<subseteq> A"
  shows "sorted_wrt (\<lambda>a b. f b < f a) (prev # pre)"
  using assms(2-)
proof (induction xs arbitrary: prev pre rest)
  case Nil
  then show ?case by simp
next
  case (Cons x xs)
  show ?case
  proof (cases "lt x prev")
    case False
    with Cons.prems show ?thesis by simp
  next
    case True
    then obtain pre' where r: "desc_run lt x xs = (pre', rest)" and pre: "pre = x # pre'"
      using Cons.prems(1) by (auto split: prod.splits)
    from Cons.prems have "x \<in> A" "set xs \<subseteq> A" by auto
    from Cons.IH [OF r this] have sw: "sorted_wrt (\<lambda>a b. f b < f a) (x # pre')" .
    from True assms(1) [of x prev] Cons.prems \<open>x \<in> A\<close> have "f x < f prev" by auto
    moreover from sw have "\<forall>y\<in>set pre'. f y < f x" by simp
    ultimately have "\<forall>y\<in>set (x # pre'). f y < f prev" by (auto intro: less_trans)
    with sw pre show ?thesis by simp
  qed
qed

lemma filter_rev_distinct:
  assumes "distinct (map f zs)"
  shows "filter (\<lambda>y. c = f y) (rev zs) = filter (\<lambda>y. c = f y) zs"
proof -
  from assms have "length (filter (\<lambda>y. c = f y) zs) \<le> 1"
    by (induction zs) (auto simp: filter_empty_conv)
  then have "rev (filter (\<lambda>y. c = f y) zs) = filter (\<lambda>y. c = f y) zs"
    by (cases "filter (\<lambda>y. c = f y) zs") (auto simp: le_Suc_eq)
  then show ?thesis by (simp add: rev_filter)
qed

lemma sort_key_strictly_descending:
  assumes "sorted_wrt (\<lambda>a b. f b < f a) zs"
  shows "sort_key f zs = rev zs"
proof (rule properties_for_sort_key)
  show "mset (rev zs) = mset zs" by simp
  from assms have "sorted_wrt (\<lambda>a b. f a < f b) (rev zs)"
    by (simp add: sorted_wrt_rev)
  then have "sorted_wrt (<) (map f (rev zs))"
    by (simp add: sorted_wrt_map)
  then have s: "sorted (map f (rev zs))" "distinct (map f (rev zs))"
    by (simp_all add: strict_sorted_iff)
  from s(1) show "sorted (map f (rev zs))" .
  from s(2) have "distinct (map f zs)" by (metis distinct_rev rev_map)
  then show "filter (\<lambda>y. f k = f y) (rev zs) = filter (\<lambda>y. f k = f y) zs" for k
    by (rule filter_rev_distinct)
qed

lemma count_run_sort_key:
  assumes "\<And>a b. a \<in> A \<Longrightarrow> b \<in> A \<Longrightarrow> lt a b \<longleftrightarrow> f a < f b"
    and "count_run lt xs = (pre, rest)" and "set xs \<subseteq> A"
  shows "\<exists>ys. xs = ys @ rest \<and> pre = sort_key f ys"
proof (cases "(lt, xs)" rule: count_run.cases)
  case (1 lt')
  with assms(2) show ?thesis by simp
next
  case (2 lt' x)
  with assms(2) have "xs = [x] @ rest" "pre = sort_key f [x]" by auto
  then show ?thesis by blast
next
  case (3 lt' x y ys)
  then have xs: "xs = x # y # ys" by simp
  with assms(3) have mem: "x \<in> A" "y \<in> A" "set ys \<subseteq> A" by auto
  show ?thesis
  proof (cases "lt y x")
    case True
    with xs assms(2) obtain pre' where d: "desc_run lt y ys = (pre', rest)" and
      pre: "pre = rev (x # y # pre')"
      by (auto split: prod.splits)
    from desc_run_sorted [of A lt f, OF assms(1) d mem(2,3)]
    have sw: "sorted_wrt (\<lambda>a b. f b < f a) (y # pre')" by simp
    from True assms(1) [of y x] mem have "f y < f x" by simp
    moreover from sw have "\<forall>z\<in>set pre'. f z < f y" by simp
    ultimately have "\<forall>z\<in>set (y # pre'). f z < f x" by (auto intro: less_trans)
    with sw have "sorted_wrt (\<lambda>a b. f b < f a) (x # y # pre')" by simp
    then have "sort_key f (x # y # pre') = rev (x # y # pre')"
      by (rule sort_key_strictly_descending)
    moreover from desc_run_append [OF d] xs have "xs = (x # y # pre') @ rest" by simp
    ultimately show ?thesis using pre by metis
  next
    case False
    with xs assms(2) obtain pre' where a: "asc_run lt y ys = (pre', rest)" and
      pre: "pre = x # y # pre'"
      by (auto split: prod.splits)
    from asc_run_sorted [of A lt f, OF assms(1) a mem(2,3)]
    have "sorted (map f (y # pre'))" by simp
    moreover from False assms(1) [of y x] mem have "f x \<le> f y" by auto
    ultimately have "sorted (map f (x # y # pre'))" by auto
    then have "sort_key f (x # y # pre') = x # y # pre'"
      by (rule sort_key_id_if_sorted)
    moreover from asc_run_append [OF a] xs have "xs = (x # y # pre') @ rest" by simp
    ultimately show ?thesis using pre by metis
  qed
qed

lemma bisect_bounds:
  assumes compat: "\<And>y. y \<in> set xs \<Longrightarrow> lt x y \<longleftrightarrow> f x < f y"
    and sorted: "sorted (map f xs)"
  shows "l \<le> r \<Longrightarrow> r \<le> length xs \<Longrightarrow> \<forall>i<l. f (xs ! i) \<le> f x \<Longrightarrow>
         \<forall>i. r \<le> i \<and> i < length xs \<longrightarrow> f x < f (xs ! i) \<Longrightarrow>
         bisect lt x xs l r \<le> length xs \<and>
         (\<forall>i<bisect lt x xs l r. f (xs ! i) \<le> f x) \<and>
         (\<forall>i. bisect lt x xs l r \<le> i \<and> i < length xs \<longrightarrow> f x < f (xs ! i))"
proof (induction "r - l" arbitrary: l r rule: less_induct)
  case less
  show ?case
  proof (cases "l < r")
    case False
    with less.prems have "l = r" by simp
    moreover from False have "bisect lt x xs l r = l"
      by (simp add: bisect.simps [of lt x xs l r])
    ultimately show ?thesis using less.prems by simp
  next
    case True
    define p where "p = l + (r - l) div 2"
    from True less.prems have p: "l \<le> p" "p < r" "p < length xs" by (auto simp: p_def)
    have nth: "f (xs ! i) \<le> f (xs ! j)" if "i \<le> j" "j < length xs" for i j
      using sorted that by (simp add: sorted_iff_nth_mono)
    show ?thesis
    proof (cases "lt x (xs ! p)")
      case lt: True
      with compat [of "xs ! p"] p have "f x < f (xs ! p)" by simp
      then have up: "\<forall>i. p \<le> i \<and> i < length xs \<longrightarrow> f x < f (xs ! i)"
        using nth by (meson less_le_trans)
      from p True have "p - l < r - l" "l \<le> p" "p \<le> length xs" by simp_all
      from less.hyps [OF this less.prems(3) up]
      show ?thesis using True lt by (simp add: bisect.simps [of lt x xs l r] p_def Let_def)
    next
      case ge: False
      with compat [of "xs ! p"] p have "f (xs ! p) \<le> f x" by auto
      then have low: "\<forall>i<p + 1. f (xs ! i) \<le> f x"
        using nth p by (metis Suc_eq_plus1 less_Suc_eq_le order_trans)
      from p True less.prems have "r - (p + 1) < r - l" "p + 1 \<le> r" "r \<le> length xs" by simp_all
      from less.hyps [OF this low less.prems(4)]
      show ?thesis using True ge by (simp add: bisect.simps [of lt x xs l r] p_def Let_def)
    qed
  qed
qed

lemma insert_pivot_sort_key:
  assumes compat: "\<And>y. y \<in> set ys \<Longrightarrow> lt x y \<longleftrightarrow> f x < f y"
  shows "insert_pivot lt (sort_key f ys) x = sort_key f (ys @ [x])"
proof -
  let ?S = "sort_key f ys"
  define j where "j = bisect lt x ?S 0 (length ?S)"
  have "bisect lt x ?S 0 (length ?S) \<le> length ?S \<and>
     (\<forall>i<bisect lt x ?S 0 (length ?S). f (?S ! i) \<le> f x) \<and>
     (\<forall>i. bisect lt x ?S 0 (length ?S) \<le> i \<and> i < length ?S \<longrightarrow> f x < f (?S ! i))"
    by (rule bisect_bounds [where f = f]) (auto simp: compat)
  then have j: "j \<le> length ?S" and low: "\<forall>i<j. f (?S ! i) \<le> f x" and
    up: "\<forall>i. j \<le> i \<and> i < length ?S \<longrightarrow> f x < f (?S ! i)"
    by (simp_all add: j_def)
  have lo: "f y \<le> f x" if "y \<in> set (take j ?S)" for y
    using that low j by (auto simp: in_set_conv_nth)
  have hi: "f x < f y" if "y \<in> set (drop j ?S)" for y
    using that up by (auto simp: in_set_conv_nth)
  have split: "take j ?S @ drop j ?S = ?S" by simp
  have "sorted (map f ?S)" by simp
  then have st: "sorted (map f (take j ?S))" "sorted (map f (drop j ?S))"
    by (metis split map_append sorted_append)+
  have "sort_key f (ys @ [x]) = take j ?S @ x # drop j ?S"
  proof (rule properties_for_sort_key)
    have "mset (take j ?S @ x # drop j ?S) = add_mset x (mset ?S)"
      by (metis split mset.simps(2) mset_append union_mset_add_mset_right)
    then show "mset (take j ?S @ x # drop j ?S) = mset (ys @ [x])" by simp
    have "f a \<le> f b" if "a \<in> set (take j ?S)" "b \<in> set (drop j ?S)" for a b
      using lo [OF that(1)] hi [OF that(2)] by simp
    then show "sorted (map f (take j ?S @ x # drop j ?S))"
      using st lo hi by (auto simp: sorted_append intro: less_imp_le)
    show "filter (\<lambda>y. f k = f y) (take j ?S @ x # drop j ?S) = filter (\<lambda>y. f k = f y) (ys @ [x])"
      for k
    proof -
      have stable: "filter (\<lambda>y. f k = f y) ?S = filter (\<lambda>y. f k = f y) ys"
        using sort_key_stable [of f "f k" ys] by (simp add: eq_commute)
      have parts: "filter (\<lambda>y. f k = f y) ?S
          = filter (\<lambda>y. f k = f y) (take j ?S) @ filter (\<lambda>y. f k = f y) (drop j ?S)"
        by (metis split filter_append)
      show ?thesis
      proof (cases "f k = f x")
        case True
        have "f k \<noteq> f y" if "y \<in> set (drop j ?S)" for y
          using hi [OF that] True by simp
        then have "filter (\<lambda>y. f k = f y) (drop j ?S) = []"
          by (simp add: filter_empty_conv)
        with True parts stable show ?thesis by simp
      next
        case False
        with parts stable show ?thesis by simp
      qed
    qed
  qed
  then show ?thesis by (simp add: insert_pivot_def j_def Let_def)
qed

lemma binarysort_sort_key:
  assumes "\<And>a b. a \<in> A \<Longrightarrow> b \<in> A \<Longrightarrow> lt a b \<longleftrightarrow> f a < f b"
  shows "set pre \<subseteq> A \<Longrightarrow> set rest \<subseteq> A \<Longrightarrow>
         binarysort lt (sort_key f pre) rest = sort_key f (pre @ rest)"
proof (induction rest arbitrary: pre)
  case Nil
  then show ?case by (simp add: binarysort_def)
next
  case (Cons x rest)
  have "insert_pivot lt (sort_key f pre) x = sort_key f (pre @ [x])"
    using Cons.prems by (intro insert_pivot_sort_key assms) auto
  moreover have "binarysort lt (sort_key f (pre @ [x])) rest = sort_key f ((pre @ [x]) @ rest)"
    using Cons.prems by (intro Cons.IH) auto
  ultimately show ?case by (simp add: binarysort_def)
qed

lemma flt_rank: "a \<noteq> NaN \<Longrightarrow> b \<noteq> NaN \<Longrightarrow> flt a b \<longleftrightarrow> rank a < rank b"
  by (cases a; cases b) (simp_all add: rank_def)

lemma fle_rank: "a \<noteq> NaN \<Longrightarrow> b \<noteq> NaN \<Longrightarrow> fle a b \<longleftrightarrow> rank a \<le> rank b"
  by (cases a; cases b) (simp_all add: rank_def)

lemma rank_eq: "rank a = rank b \<longleftrightarrow> a = b"
  by (cases a; cases b) (simp_all add: rank_def)

lemma list_sort_sort_key:
  assumes "\<forall>x\<in>set xs. key x \<noteq> NaN"
  shows "list_sort key xs = sort_key (\<lambda>x. rank (key x)) xs"
proof -
  let ?lt = "\<lambda>a b. flt (key a) (key b)"
  have compat: "?lt a b \<longleftrightarrow> rank (key a) < rank (key b)" if "a \<in> set xs" "b \<in> set xs" for a b
    using that assms by (simp add: flt_rank)
  obtain pre rest where c: "count_run ?lt xs = (pre, rest)"
    by (cases "count_run ?lt xs")
  from count_run_sort_key [of "set xs" ?lt "\<lambda>x. rank (key x)", OF compat c]
  obtain ys where pre: "xs = ys @ rest" "pre = sort_key (\<lambda>x. rank (key x)) ys"
    by auto
  then have "set ys \<subseteq> set xs" "set rest \<subseteq> set xs" by auto
  from binarysort_sort_key [of "set xs" ?lt "\<lambda>x. rank (key x)", OF compat this]
  show ?thesis using c pre by (simp add: list_sort_def)
qed

lemma list_sort_sorted:
  assumes "\<forall>x\<in>set xs. key x \<noteq> NaN"
  shows "sorted_wrt fle (map key (list_sort key xs))"
proof -
  have "sorted (map (\<lambda>x. rank (key x)) (list_sort key xs))"
    by (simp add: list_sort_sort_key [OF assms])
  then have "sorted_wrt (\<lambda>a b. rank (key a) \<le> rank (key b)) (list_sort key xs)"
    by (simp add: sorted_map)
  then have "sorted_wrt (\<lambda>a b. fle (key a) (key b)) (list_sort key xs)"
    using assms by (auto simp: set_list_sort fle_rank elim!: sorted_wrt_mono_rel [rotated])
  then show ?thesis by (simp add: sorted_wrt_map)
qed

lemma list_sort_stable:
  assumes "\<forall>x\<in>set xs. key x \<noteq> NaN"
  shows "filter (\<lambda>x. key x = p) (list_sort key xs) = filter (\<lambda>x. key x = p) xs"
  using sort_key_stable [of "\<lambda>x. rank (key x)" "rank p" xs]
  by (simp add: list_sort_sort_key [OF assms] rank_eq)

subsection \<open>Rounding\<close>

lemma pow2_pos: "0 < pow2 e"
  by (simp add: pow2_def)

lemma pow2_nonpos: "e \<le> 0 \<Longrightarrow> pow2 e = 1 / 2 ^ nat (- e)"
  by (cases "e = 0") (simp_all add: pow2_def)

lemma half_even_of_int: "half_even (of_int k) = k"
  by (simp add: half_even_def)

lemma half_even_nonneg: "0 \<le> y \<Longrightarrow> 0 \<le> half_even y"
  by (simp add: half_even_def Let_def)

lemma binade_of_int:
  assumes "0 < n" and "n < 2 ^ 53"
  shows "binade (of_int n) \<le> 52"
proof -
  from assms(2) have "bitlen n \<le> 53"
    by (simp add: bitlen_le_iff_power)
  moreover have "bitlen 1 = 1"
    by (simp add: bitlen_alt_def)
  ultimately show ?thesis
    by (simp add: binade_def Let_def)
qed

lemma round_to_double_of_int:
  assumes "\<bar>n\<bar> < 2 ^ 53"
  shows "round_to_double (of_int n) = Finite (of_int n)"
proof (cases "n = 0")
  case True
  then show ?thesis by (simp add: round_to_double_def)
next
  case False
  define m where "m = \<bar>n\<bar>"
  define e where "e = max (binade (of_int m)) (- 1022) - 52"
  define k where "k = nat (- e)"
  from False assms have m: "0 < m" "m < 2 ^ 53" by (simp_all add: m_def)
  from binade_of_int [OF m] have "e \<le> 0" by (simp add: e_def)
  then have u: "pow2 e = 1 / 2 ^ k" by (simp add: pow2_nonpos k_def)
  have "(of_int m :: rat) / pow2 e = of_int (m * 2 ^ k)"
    by (simp add: u)
  then have h: "half_even (of_int m / pow2 e) = m * 2 ^ k"
    by (simp only: half_even_of_int)
  have v: "of_int (half_even (of_int m / pow2 e)) * pow2 e = (of_int m :: rat)"
    unfolding h by (simp add: u)
  from m(2) have "(of_int m :: rat) < 2 ^ 53"
    by (metis of_int_less_numeral_power_cancel_iff)
  also have "\<dots> \<le> pow2 1024" by (simp add: pow2_def)
  finally have small: "\<not> pow2 1024 \<le> (of_int m :: rat)" by simp
  have abs: "\<bar>of_int n :: rat\<bar> = of_int m" by (simp add: m_def)
  have "round_to_double (of_int n) = Finite (if (of_int n :: rat) < 0 then - of_int m else of_int m)"
    using False small unfolding round_to_double_def Let_def abs e_def [symmetric] v
    by simp
  also have "(if (of_int n :: rat) < 0 then - of_int m else of_int m) = (of_int n :: rat)"
    by (simp add: m_def)
  finally show ?thesis .
qed

lemma round_to_double_numeral:
  assumes "numeral k < (2 :: int) ^ 53"
  shows "round_to_double (numeral k) = Finite (numeral k)"
proof -
  from assms have "\<bar>numeral k :: int\<bar> < 2 ^ 53" by (simp only: abs_numeral)
  from round_to_double_of_int [OF this] show ?thesis by (simp only: of_int_numeral)
qed

lemma round_to_double_neg_numeral:
  assumes "numeral k < (2 :: int) ^ 53"
  shows "round_to_double (- numeral k) = Finite (- numeral k)"
proof -
  from assms have "\<bar>- numeral k :: int\<bar> < 2 ^ 53" by (simp only: abs_neg_numeral)
  from round_to_double_of_int [OF this] show ?thesis by (simp only: of_int_numeral of_int_minus)
qed

lemma round_to_double_zero: "round_to_double 0 = Finite 0"
  by (simp add: round_to_double_def)

lemma round_to_double_nonneg:
  assumes "0 \<le> q"
  shows "fle (Finite 0) (round_to_double q)"
proof (cases "q = 0")
  case True
  then show ?thesis by (simp add: round_to_double_def)
next
  case False
  define u where "u = pow2 (max (binade \<bar>q\<bar>) (- 1022) - 52)"
  define v where "v = of_int (half_even (\<bar>q\<bar> / u)) * u"
  have "0 < u" by (simp add: u_def pow2_pos)
  then have "0 \<le> \<bar>q\<bar> / u" by simp
  then have "0 \<le> half_even (\<bar>q\<bar> / u)" by (rule half_even_nonneg)
  with \<open>0 < u\<close> have "0 \<le> v" by (simp add: v_def)
  have "round_to_double q = (if pow2 1024 \<le> v then PosInf else Finite v)"
    using False assms unfolding round_to_double_def Let_def u_def v_def by auto
  with \<open>0 \<le> v\<close> show ?thesis by simp
qed

lemma fmul_nonneg:
  assumes "fle (Finite 0) a" and "fle (Finite 0) b" and "fmul a b \<noteq> NaN"
  shows "fle (Finite 0) (fmul a b)"
  using assms
  by (cases a; cases b) (auto simp: round_to_double_nonneg split: if_splits)

lemma py_round2_nonneg:
  assumes "fle (Finite 0) x"
  shows "fle (Finite 0) (py_round2 x)"
proof (cases x)
  case (Finite q)
  with assms have "0 \<le> q" by simp
  then have "0 \<le> half_even (q * 100)" by (intro half_even_nonneg) simp
  then have "0 \<le> (of_int (half_even (q * 100)) :: rat) / 100" by simp
  then show ?thesis using Finite by (simp add: round_to_double_nonneg)
qed (use assms in simp_all)

lemma half_even_numeral: "half_even (numeral k) = numeral k"
  using half_even_of_int [of "numeral k"] by (simp only: of_int_numeral)

lemma half_even_neg_numeral: "half_even (- numeral k) = - numeral k"
  using half_even_of_int [of "- numeral k"] by (simp only: of_int_numeral of_int_minus)

lemmas float_simps = round_to_double_numeral round_to_double_neg_numeral round_to_double_zero
  half_even_numeral half_even_neg_numeral

text \<open>
  \<open>float("100.05") * 5.5\<close> and its \<open>round(x, 2)\<close>: the total is read as the double
  just below 100.05, the product is the double just below 550.275, and the price is the
  double nearest to 550.27.
\<close>

lemma product_example:
  "fmul (Finite (7040392854975283 / 70368744177664)) (Finite (11 / 2))
     = Finite (4840270087795507 / 8796093022208)"
  by code_simp

lemma round_example:
  "py_round2 (Finite (4840270087795507 / 8796093022208))
     = Finite (1210056526832599 / 2199023255552)"
  by code_simp

lemma bisect_step:
  "l < r \<Longrightarrow> bisect lt pivot xs l r =
     (if lt pivot (xs ! (l + (r - l) div 2)) then bisect lt pivot xs l (l + (r - l) div 2)
      else bisect lt pivot xs (l + (r - l) div 2 + 1) r)"
  by (simp add: bisect.simps [of lt pivot xs l r] Let_def)

lemma bisect_done: "\<not> l < r \<Longrightarrow> bisect lt pivot xs l r = l"
  by (simp add: bisect.simps [of lt pivot xs l r])

lemmas sort_defs = list_sort_def binarysort_def insert_pivot_def bisect_step bisect_done

subsection \<open>The requests and the rate table\<close>

lemma get_rate_calls: "snd (get_rate w cur calls) = calls @ [RateCall cur]"
  by (simp add: get_rate_def split: reply.splits sum.splits option.splits)

lemma amadeus_token_calls: "snd (amadeus_token w calls) = calls @ [TokenCall]"
  by (simp add: amadeus_token_def split: reply.splits)

lemma search_leg_calls:
  "snd (search_leg w token origin dest date calls) = calls @ [SearchCall token origin dest date]"
  by (simp add: search_leg_def split: reply.splits)

lemma rate_calls_append: "rate_calls (xs @ ys) = rate_calls xs @ rate_calls ys"
  by (induction xs rule: rate_calls.induct) simp_all

lemma rate_calls_map: "rate_calls (map RateCall cs) = cs"
  by (induction cs) simp_all



lemma ensure_rate_Inl:
  assumes "ensure_rate w cur rates calls = (Inl e, c)"
  shows "rates cur = None \<and> c = calls @ [RateCall cur]"
proof -
  from assms have none: "rates cur = None"
    by (auto simp: ensure_rate_def split: if_splits)
  with assms have "c = snd (get_rate w cur calls)"
    by (auto simp: ensure_rate_def split: prod.splits sum.splits)
  with none show ?thesis by (simp add: get_rate_calls)
qed

lemma ensure_rate_Inr:
  assumes "ensure_rate w cur rates calls = (Inr rates', c)"
  shows "(rates cur \<noteq> None \<and> rates' = rates \<and> c = calls) \<or>
         (rates cur = None \<and> c = calls @ [RateCall cur] \<and>
          (\<exists>v. get_rate w cur calls = (Inr v, c) \<and> rates' = rates(cur \<mapsto> v)))"
proof (cases "rates cur")
  case None
  with assms obtain v where g: "get_rate w cur calls = (Inr v, c)" and r: "rates' = rates(cur \<mapsto> v)"
    by (auto simp: ensure_rate_def split: prod.splits sum.splits)
  from g have "c = calls @ [RateCall cur]"
    using get_rate_calls [of w cur calls] by simp
  with None g r show ?thesis by blast
next
  case (Some v)
  with assms show ?thesis by (simp add: ensure_rate_def)
qed

lemma ensure_rate_keeps:
  assumes "ensure_rate w cur rates calls = (Inr rates', c)" and "rates k = Some v"
  shows "rates' k = Some v"
  using ensure_rate_Inr [OF assms(1)] assms(2) by auto

lemma ensure_rate_map_le: "ensure_rate w cur rates calls = (Inr rates', c) \<Longrightarrow> rates \<subseteq>\<^sub>m rates'"
  by (auto simp: map_le_def dest: ensure_rate_keeps)

lemma ensure_rate_looked_up:
  assumes "ensure_rate w cur rates calls = (Inr rates', c)" and "looked_up w rates"
  shows "looked_up w rates'"
  using ensure_rate_Inr [OF assms(1)] assms(2)
  unfolding looked_up_def by (auto split: if_splits)

lemma normalize_mono:
  assumes "rates \<subseteq>\<^sub>m rates'" and "normalize_offer w rates off = Inr n"
  shows "normalize_offer w rates' off = Inr n"
proof -
  from assms(2) obtain rate where r: "rates (currency (price off)) = Some rate"
    by (auto simp: normalize_offer_def split: sum.splits option.splits)
  with assms(1) have "rates' (currency (price off)) = Some rate"
    by (metis domI map_le_def)
  with r assms(2) show ?thesis
    by (auto simp: normalize_offer_def split: sum.splits)
qed

lemma leg_loop_Inr:
  "leg_loop w offers rates res calls = (Inr (rates', res'), calls') \<Longrightarrow>
   rates \<subseteq>\<^sub>m rates' \<and>
   (\<exists>ns. res' = res @ ns \<and> list_all2 (\<lambda>off n. normalize_offer w rates' off = Inr n) offers ns)"
proof (induction offers arbitrary: rates res calls)
  case Nil
  then show ?case by simp
next
  case (Cons off offers)
  from Cons.prems obtain rates1 c1 n where
    e: "ensure_rate w (currency (price off)) rates calls = (Inr rates1, c1)" and
    n: "normalize_offer w rates1 off = Inr n" and
    l: "leg_loop w offers rates1 (res @ [n]) c1 = (Inr (rates', res'), calls')"
    by (auto split: prod.splits sum.splits)
  from Cons.IH [OF l] obtain ns where
    le: "rates1 \<subseteq>\<^sub>m rates'" and r: "res' = (res @ [n]) @ ns" and
    a: "list_all2 (\<lambda>off n. normalize_offer w rates' off = Inr n) offers ns"
    by blast
  from ensure_rate_map_le [OF e] le have "rates \<subseteq>\<^sub>m rates'"
    by (rule map_le_trans)
  moreover from normalize_mono [OF le n] a
  have "list_all2 (\<lambda>off n. normalize_offer w rates' off = Inr n) (off # offers) (n # ns)"
    by simp
  moreover from r have "res' = res @ (n # ns)" by simp
  ultimately show ?case by blast
qed

lemma leg_loop_looked_up:
  "leg_loop w offers rates res calls = (Inr (rates', res'), calls') \<Longrightarrow> looked_up w rates \<Longrightarrow>
   looked_up w rates'"
proof (induction offers arbitrary: rates res calls)
  case Nil
  then show ?case by simp
next
  case (Cons off offers)
  from Cons.prems(1) obtain rates1 c1 n where
    e: "ensure_rate w (currency (price off)) rates calls = (Inr rates1, c1)" and
    l: "leg_loop w offers rates1 (res @ [n]) c1 = (Inr (rates', res'), calls')"
    by (auto split: prod.splits sum.splits)
  from Cons.IH [OF l ensure_rate_looked_up [OF e Cons.prems(2)]] show ?case .
qed

lemma ensure_rate_calls:
  assumes "ensure_rate w cur rates calls = (x, c1)"
  shows "\<exists>pre. c1 = calls @ map RateCall pre \<and> (pre = [] \<or> pre = [cur]) \<and>
           set pre \<inter> dom rates = {} \<and>
           (\<forall>rates1. x = Inr rates1 \<longrightarrow> dom rates1 = dom rates \<union> set pre)"
proof (cases x)
  case (Inl err)
  with assms have "rates cur = None \<and> c1 = calls @ [RateCall cur]"
    by (auto dest: ensure_rate_Inl)
  with Inl show ?thesis
    by (intro exI [of _ "[cur]"]) auto
next
  case (Inr rates1)
  with assms have e: "ensure_rate w cur rates calls = (Inr rates1, c1)" by simp
  from ensure_rate_Inr [OF e] show ?thesis
  proof
    assume "rates cur \<noteq> None \<and> rates1 = rates \<and> c1 = calls"
    with Inr show ?thesis by (intro exI [of _ "[]"]) auto
  next
    assume "rates cur = None \<and> c1 = calls @ [RateCall cur] \<and>
      (\<exists>v. get_rate w cur calls = (Inr v, c1) \<and> rates1 = rates(cur \<mapsto> v))"
    with Inr show ?thesis by (intro exI [of _ "[cur]"]) auto
  qed
qed

lemma leg_loop_calls:
  "leg_loop w offers rates res calls = (r, calls') \<Longrightarrow>
   \<exists>cs. calls' = calls @ map RateCall cs \<and> distinct cs \<and>
        set cs \<subseteq> (\<lambda>off. currency (price off)) ` set offers \<and> set cs \<inter> dom rates = {} \<and>
        (\<forall>rates' res'. r = Inr (rates', res') \<longrightarrow> dom rates' = dom rates \<union> set cs)"
proof (induction offers arbitrary: rates res calls)
  case Nil
  then show ?case by auto
next
  case (Cons off offers)
  let ?cur = "currency (price off)"
  let ?curs = "\<lambda>offs. (\<lambda>off. currency (price off)) ` set offs"
  obtain x c1 where e: "ensure_rate w ?cur rates calls = (x, c1)"
    by (cases "ensure_rate w ?cur rates calls")
  from ensure_rate_calls [OF e] obtain pre where
    c1: "c1 = calls @ map RateCall pre" and pre: "pre = [] \<or> pre = [?cur]" and
    fresh: "set pre \<inter> dom rates = {}" and
    d1: "\<forall>rates1. x = Inr rates1 \<longrightarrow> dom rates1 = dom rates \<union> set pre"
    by (elim exE conjE)
  from pre have sub: "set pre \<subseteq> ?curs (off # offers)" and dp: "distinct pre"
    by auto
  have stop: ?case if "r = Inl err" "calls' = c1" for err
    using that c1 sub dp fresh by (intro exI [of _ pre]) simp
  show ?case
  proof (cases x)
    case (Inl err)
    with e Cons.prems have "r = Inl err" "calls' = c1" by simp_all
    then show ?thesis by (rule stop)
  next
    case x: (Inr rates1)
    show ?thesis
    proof (cases "normalize_offer w rates1 off")
      case (Inl err)
      with e x Cons.prems have "r = Inl err" "calls' = c1" by simp_all
      then show ?thesis by (rule stop)
    next
      case (Inr n)
      with e x Cons.prems
      have l: "leg_loop w offers rates1 (res @ [n]) c1 = (r, calls')" by simp
      from Cons.IH [OF l] obtain cs where
        cs1: "calls' = c1 @ map RateCall cs" and cs2: "distinct cs" and
        cs3: "set cs \<subseteq> ?curs offers" and cs4: "set cs \<inter> dom rates1 = {}" and
        cs5: "\<forall>rates' res'. r = Inr (rates', res') \<longrightarrow> dom rates' = dom rates1 \<union> set cs"
        by (elim exE conjE)
      from d1 x have dr: "dom rates1 = dom rates \<union> set pre" by simp
      have "calls' = calls @ map RateCall (pre @ cs)" using cs1 c1 by simp
      moreover have "distinct (pre @ cs)" using dp cs2 cs4 dr by auto
      moreover have "set (pre @ cs) \<subseteq> ?curs (off # offers)"
        using sub cs3 by auto
      moreover have "set (pre @ cs) \<inter> dom rates = {}" using fresh cs4 dr by auto
      moreover have "\<forall>rates' res'. r = Inr (rates', res') \<longrightarrow> dom rates' = dom rates \<union> set (pre @ cs)"
        using cs5 dr by auto
      ultimately show ?thesis by (intro exI [of _ "pre @ cs"] conjI)
    qed
  qed
qed

subsection \<open>The whole invocation\<close>

lemma amadeus_token_Inr:
  "amadeus_token w calls = (x, c) \<Longrightarrow> c = calls @ [TokenCall]"
  using amadeus_token_calls [of w calls] by simp

lemma search_leg_Inr:
  "search_leg w token origin dest date calls = (x, c) \<Longrightarrow>
   c = calls @ [SearchCall token origin dest date]"
  using search_leg_calls [of w token origin dest date calls] by simp

lemma fetch_legs_no_rate_calls: "rate_calls (snd (fetch_legs w origin destination d1 d2)) = []"
proof -
  obtain x c1 where t: "amadeus_token w [] = (x, c1)" by (cases "amadeus_token w []")
  then have c1: "c1 = [TokenCall]" by (auto dest: amadeus_token_Inr)
  show ?thesis
    using t c1 unfolding fetch_legs_def
    by (auto split: prod.splits sum.splits dest!: search_leg_Inr simp: rate_calls_append)
qed

lemma run_fetch_failed:
  "fetch_legs w origin destination d1 d2 = (Inl e, c) \<Longrightarrow> run w origin destination d1 d2 = (Inl e, c)"
  by (simp add: run_def)

lemma run_fetched:
  "fetch_legs w origin destination d1 d2 = (Inr (outs, rets), c) \<Longrightarrow>
   run w origin destination d1 d2 =
     (case rank_legs w outs rets c of
        (Inl e, c') \<Rightarrow> (Inl e, c')
      | (Inr (result, rates), c') \<Rightarrow> (Inr result, c'))"
  by (simp add: run_def)

lemma looked_up_empty: "looked_up w Map.empty"
  by (simp add: looked_up_def)

lemma rank_legs_Inr:
  assumes "rank_legs w outs rets c = (Inr (r, table), c')"
  shows "\<exists>out_n ret_n.
           list_all2 (\<lambda>off n. normalize_offer w table off = Inr n) outs out_n \<and>
           list_all2 (\<lambda>off n. normalize_offer w table off = Inr n) rets ret_n \<and>
           outbound r = list_sort price_brl out_n \<and> return r = list_sort price_brl ret_n \<and>
           looked_up w table"
proof -
  from assms obtain rates1 res1 c1 res2 where
    l1: "leg_loop w outs Map.empty [] c = (Inr (rates1, res1), c1)" and
    l2: "leg_loop w rets rates1 [] c1 = (Inr (table, res2), c')" and
    r: "r = \<lparr>outbound = list_sort price_brl res1, return = list_sort price_brl res2\<rparr>"
    unfolding rank_legs_def by (auto split: prod.splits sum.splits)
  from leg_loop_Inr [OF l1] have a1: "list_all2 (\<lambda>off n. normalize_offer w rates1 off = Inr n) outs res1"
    by simp
  from leg_loop_Inr [OF l2] have le: "rates1 \<subseteq>\<^sub>m table" and
    a2: "list_all2 (\<lambda>off n. normalize_offer w table off = Inr n) rets res2"
    by simp_all
  from a1 le have "list_all2 (\<lambda>off n. normalize_offer w table off = Inr n) outs res1"
    by (auto elim!: list_all2_mono intro: normalize_mono)
  moreover have "looked_up w table"
    using leg_loop_looked_up [OF l2 leg_loop_looked_up [OF l1 looked_up_empty]] .
  ultimately show ?thesis using a2 r by auto
qed

lemma run_success:
  assumes "fetch_legs w origin destination d1 d2 = (Inr (outs, rets), c)"
    and "run w origin destination d1 d2 = (Inr r, c')"
  shows "\<exists>table out_n ret_n.
           list_all2 (\<lambda>off n. normalize_offer w table off = Inr n) outs out_n \<and>
           list_all2 (\<lambda>off n. normalize_offer w table off = Inr n) rets ret_n \<and>
           outbound r = list_sort price_brl out_n \<and> return r = list_sort price_brl ret_n \<and>
           looked_up w table"
proof -
  from assms obtain table where "rank_legs w outs rets c = (Inr (r, table), c')"
    by (auto simp: run_fetched split: prod.splits sum.splits)
  from rank_legs_Inr [OF this] show ?thesis by blast
qed

lemma rank_legs_calls:
  assumes "rank_legs w outs rets c = (x, c')"
  shows "\<exists>cs. c' = c @ map RateCall cs \<and> distinct cs \<and>
           set cs \<subseteq> (\<lambda>off. currency (price off)) ` set (outs @ rets) \<and>
           (\<forall>r table. x = Inr (r, table) \<longrightarrow> dom table = set cs)"
proof -
  obtain x1 c1 where l1: "leg_loop w outs Map.empty [] c = (x1, c1)"
    by (cases "leg_loop w outs Map.empty [] c")
  from leg_loop_calls [OF l1] obtain cs1 where
    c1: "c1 = c @ map RateCall cs1" and d1: "distinct cs1" and
    s1: "set cs1 \<subseteq> (\<lambda>off. currency (price off)) ` set outs" and
    m1: "\<forall>rates' res'. x1 = Inr (rates', res') \<longrightarrow> dom rates' = dom (Map.empty :: string \<rightharpoonup> pyfloat) \<union> set cs1"
    by (elim exE conjE)
  show ?thesis
  proof (cases x1)
    case (Inl e)
    with l1 assms have "c' = c1" by (simp add: rank_legs_def)
    moreover from Inl l1 assms have "x = Inl e" by (simp add: rank_legs_def)
    ultimately show ?thesis using c1 d1 s1 by (intro exI [of _ cs1]) auto
  next
    case (Inr p)
    obtain rates1 res1 where p: "p = (rates1, res1)" by (cases p)
    with Inr m1 have dr: "dom rates1 = set cs1" by simp
    obtain x2 c2 where l2: "leg_loop w rets rates1 [] c1 = (x2, c2)"
      by (cases "leg_loop w rets rates1 [] c1")
    from leg_loop_calls [OF l2] obtain cs2 where
      c2: "c2 = c1 @ map RateCall cs2" and d2: "distinct cs2" and
      s2: "set cs2 \<subseteq> (\<lambda>off. currency (price off)) ` set rets" and
      f2: "set cs2 \<inter> dom rates1 = {}" and
      m2: "\<forall>rates' res'. x2 = Inr (rates', res') \<longrightarrow> dom rates' = dom rates1 \<union> set cs2"
      by (elim exE conjE)
    from l1 l2 Inr p assms have c': "c' = c2"
      by (auto simp: rank_legs_def split: sum.splits)
    from l1 l2 Inr p assms have x: "\<forall>r table. x = Inr (r, table) \<longrightarrow> (\<exists>res2. x2 = Inr (table, res2))"
      by (auto simp: rank_legs_def split: sum.splits)
    have "c' = c @ map RateCall (cs1 @ cs2)" using c' c2 c1 by simp
    moreover have "distinct (cs1 @ cs2)" using d1 d2 f2 dr by auto
    moreover have "set (cs1 @ cs2) \<subseteq> (\<lambda>off. currency (price off)) ` set (outs @ rets)"
      using s1 s2 by auto
    moreover have "\<forall>r table. x = Inr (r, table) \<longrightarrow> dom table = set (cs1 @ cs2)"
      using x m2 dr by auto
    ultimately show ?thesis by (intro exI [of _ "cs1 @ cs2"] conjI)
  qed
qed

lemma run_rate_calls:
  assumes "fetch_legs w origin destination d1 d2 = (Inr (outs, rets), c)"
  shows "distinct (rate_calls (snd (run w origin destination d1 d2))) \<and>
         set (rate_calls (snd (run w origin destination d1 d2)))
           \<subseteq> (\<lambda>off. currency (price off)) ` set (outs @ rets)"
proof -
  obtain x c' where rk: "rank_legs w outs rets c = (x, c')"
    by (cases "rank_legs w outs rets c")
  from rank_legs_calls [OF rk] obtain cs where
    cs: "c' = c @ map RateCall cs" "distinct cs"
      "set cs \<subseteq> (\<lambda>off. currency (price off)) ` set (outs @ rets)"
    by (elim exE conjE)
  from assms rk have "snd (run w origin destination d1 d2) = c'"
    by (auto simp: run_fetched split: sum.splits)
  moreover from fetch_legs_no_rate_calls [of w origin destination d1 d2] assms
  have "rate_calls c = []" by simp
  ultimately show ?thesis using cs by (simp add: rate_calls_append rate_calls_map)
qed

lemma run_rate_calls_distinct: "distinct (rate_calls (snd (run w origin destination d1 d2)))"
proof (cases "fetch_legs w origin destination d1 d2")
  case (Pair x c)
  show ?thesis
  proof (cases x)
    case (Inl e)
    with Pair fetch_legs_no_rate_calls [of w origin destination d1 d2] show ?thesis
      by (simp add: run_fetch_failed)
  next
    case (Inr p)
    with Pair run_rate_calls [of w origin destination d1 d2 "fst p" "snd p" c] show ?thesis
      by simp
  qed
qed



lemma fetch_legs_second:
  assumes "amadeus_token w [] = (Inr token, c1)" and "to_iso d1 = Inr i1"
    and "search_leg w token origin destination i1 c1 = (Inr outs, c2)"
  shows "fetch_legs w origin destination d1 d2 =
     (case to_iso d2 of
        Inl e \<Rightarrow> (Inl e, [TokenCall, SearchCall token origin destination i1])
      | Inr i2 \<Rightarrow>
          (case search_leg w token destination origin i2
                  [TokenCall, SearchCall token origin destination i1] of
             (Inl e, c3) \<Rightarrow> (Inl e, c3)
           | (Inr rets, c3) \<Rightarrow> (Inr (outs, rets), c3)))"
proof -
  from assms(1) have "c1 = [TokenCall]" by (auto dest: amadeus_token_Inr)
  moreover with assms(3) have "c2 = [TokenCall, SearchCall token origin destination i1]"
    by (auto dest: search_leg_Inr)
  ultimately show ?thesis using assms by (simp add: fetch_legs_def)
qed

lemma fetch_legs_first:
  assumes "amadeus_token w [] = (Inr token, c1)"
  shows "to_iso d1 = Inl e \<Longrightarrow> fetch_legs w origin destination d1 d2 = (Inl e, [TokenCall])"
    and "to_iso d1 = Inr i1 \<Longrightarrow> search_leg w token origin destination i1 c1 = (Inl e, c2) \<Longrightarrow>
         fetch_legs w origin destination d1 d2 = (Inl e, c2)"
proof -
  from assms have c1: "c1 = [TokenCall]" by (auto dest: amadeus_token_Inr)
  show "to_iso d1 = Inl e \<Longrightarrow> fetch_legs w origin destination d1 d2 = (Inl e, [TokenCall])"
    using assms c1 by (simp add: fetch_legs_def)
  show "to_iso d1 = Inr i1 \<Longrightarrow> search_leg w token origin destination i1 c1 = (Inl e, c2) \<Longrightarrow>
         fetch_legs w origin destination d1 d2 = (Inl e, c2)"
    using assms by (simp add: fetch_legs_def)
qed



lemma json_item_isl:
  "isl (json_item b k) \<longleftrightarrow> (b = NotJson \<or> b = JsonOther \<or> (\<exists>m. b = JsonObject m \<and> m k = None))"
  by (cases b) (auto simp: json_item_def split: option.splits)

subsection \<open>The dates that \<open>_to_iso\<close> accepts\<close>








subsection \<open>The example invocations\<close>

lemmas date_defs = to_iso_def strptime_def strftime_def digit_char_def is_digit_def digit_val_def
  days_in_month_def is_leap_def char_of_def bit_0

lemma to_iso_departure: "to_iso ''25/12/2024'' = Inr ''2024-12-25''"
  by (simp add: date_defs)

lemma to_iso_return: "to_iso ''02/01/2025'' = Inr ''2025-01-02''"
  by (simp add: date_defs)

text \<open>\<open>strptime\<close> reads a day and a month of one digit too.\<close>

lemma to_iso_short: "to_iso ''1/2/2024'' = Inr ''2024-02-01''"
  by (simp add: date_defs)


lemmas world_defs = example_world_def token_reply_def offers_reply_def scenario_rate_def
  drifting_rate_def unit_rate_def read_decimal_def

lemmas request_defs = amadeus_token_def search_leg_def get_rate_def json_item_def

lemmas fetch_defs = fetch_legs_def to_iso_departure to_iso_return request_defs world_defs
  fetched_def

lemmas rank_defs = rank_legs_def scenario_offers_def connecting_offer_def direct_offer_def
  ensure_rate_def normalize_offer_def first_segment_def request_defs
  world_defs fetched_def company_name_def companies_def
  direct_result_def connecting_result_def float_simps sort_defs

lemma scenario_fetch:
  "fetch_legs scenario_world ''GRU'' ''JFK'' ''25/12/2024'' ''02/01/2025'' =
     (Inr (scenario_offers, [connecting_offer]), fetched)"
  by (simp add: fetch_defs scenario_world_def)

lemma scenario_run:
  "run scenario_world ''GRU'' ''JFK'' ''25/12/2024'' ''02/01/2025'' =
     (Inr \<lparr>outbound = [direct_result ''GOL'' (Finite 825), direct_result ''XX'' (Finite 900),
                          direct_result ''LATAM'' (Finite 1000)],
            return = [connecting_result (Finite 750)]\<rparr>,
      fetched @ [RateCall ''USD'', RateCall ''EUR''])"
  unfolding run_fetched [OF scenario_fetch]
  by (simp add: rank_defs scenario_world_def)

lemma scenario_result:
  "example_result scenario_world =
     \<lparr>outbound = [direct_result ''GOL'' (Finite 825), direct_result ''XX'' (Finite 900),
                   direct_result ''LATAM'' (Finite 1000)],
      return = [connecting_result (Finite 750)]\<rparr>"
  by (simp add: example_result_def scenario_run)

lemma drifting_fetch:
  "fetch_legs drifting_world ''GRU'' ''JFK'' ''25/12/2024'' ''02/01/2025'' =
     (Inr (scenario_offers, [direct_offer ''AD'' ''USD'' ''200'']), fetched)"
  by (simp add: fetch_defs drifting_world_def)

lemma drifting_run:
  "run drifting_world ''GRU'' ''JFK'' ''25/12/2024'' ''02/01/2025'' =
     (Inr \<lparr>outbound = [direct_result ''XX'' (Finite 540), direct_result ''LATAM'' (Finite 600),
                          direct_result ''GOL'' (Finite 600)],
            return = [direct_result ''Azul'' (Finite 600)]\<rparr>,
      fetched @ [RateCall ''USD'', RateCall ''EUR''])"
  unfolding run_fetched [OF drifting_fetch]
  by (simp add: rank_defs drifting_world_def)

lemma drifting_result:
  "example_result drifting_world =
     \<lparr>outbound = [direct_result ''XX'' (Finite 540), direct_result ''LATAM'' (Finite 600),
                   direct_result ''GOL'' (Finite 600)],
      return = [direct_result ''Azul'' (Finite 600)]\<rparr>"
  by (simp add: example_result_def drifting_run)

lemma crowded_fetch:
  "fetch_legs crowded_world ''GRU'' ''JFK'' ''25/12/2024'' ''02/01/2025'' =
     (Inr (replicate 21 (direct_offer ''LA'' ''USD'' ''200''), [connecting_offer]), fetched)"
  by (simp add: fetch_defs crowded_world_def)

lemma crowded_run:
  "run crowded_world ''GRU'' ''JFK'' ''25/12/2024'' ''02/01/2025'' =
     (Inr \<lparr>outbound = replicate 21 (direct_result ''LATAM'' (Finite 1000)),
            return = [connecting_result (Finite 750)]\<rparr>,
      fetched @ [RateCall ''USD''])"
  unfolding run_fetched [OF crowded_fetch]
  by (simp add: rank_defs crowded_world_def eval_nat_numeral)

lemma crowded_result:
  "example_result crowded_world =
     \<lparr>outbound = replicate 21 (direct_result ''LATAM'' (Finite 1000)),
      return = [connecting_result (Finite 750)]\<rparr>"
  by (simp add: example_result_def crowded_run)

lemma negative_fetch:
  "fetch_legs negative_world ''GRU'' ''JFK'' ''25/12/2024'' ''02/01/2025'' =
     (Inr ([direct_offer ''LA'' ''USD'' ''-10.00''], []), fetched)"
  by (simp add: fetch_defs negative_world_def)

lemma negative_run:
  "run negative_world ''GRU'' ''JFK'' ''25/12/2024'' ''02/01/2025'' =
     (Inr \<lparr>outbound = [direct_result ''LATAM'' (Finite (- 50))], return = []\<rparr>,
      fetched @ [RateCall ''USD''])"
  unfolding run_fetched [OF negative_fetch]
  by (simp add: rank_defs negative_world_def)

lemma nan_fetch:
  "fetch_legs nan_world ''GRU'' ''JFK'' ''25/12/2024'' ''02/01/2025'' =
     (Inr ([direct_offer ''LA'' ''USD'' ''15'', direct_offer ''G3'' ''USD'' ''nan'',
            direct_offer ''AD'' ''USD'' ''5''], []), fetched)"
  by (simp add: fetch_defs nan_world_def)

lemma nan_run:
  "run nan_world ''GRU'' ''JFK'' ''25/12/2024'' ''02/01/2025'' =
     (Inr \<lparr>outbound = [direct_result ''LATAM'' (Finite 15), direct_result ''GOL'' NaN,
                        direct_result ''Azul'' (Finite 5)],
            return = []\<rparr>,
      fetched @ [RateCall ''USD''])"
  unfolding run_fetched [OF nan_fetch]
  by (simp add: rank_defs nan_world_def)

lemma anonymous_fetch:
  "fetch_legs anonymous_world ''GRU'' ''JFK'' ''25/12/2024'' ''02/01/2025'' =
     (Inr ([direct_offer [] ''USD'' ''200''], []), fetched)"
  by (simp add: fetch_defs anonymous_world_def)

lemma anonymous_run:
  "run anonymous_world ''GRU'' ''JFK'' ''25/12/2024'' ''02/01/2025'' =
     (Inr \<lparr>outbound = [direct_result [] (Finite 1000)], return = []\<rparr>,
      fetched @ [RateCall ''USD''])"
  unfolding run_fetched [OF anonymous_fetch]
  by (simp add: rank_defs anonymous_world_def)

lemma status503_fetch:
  "fetch_legs status503_world ''GRU'' ''JFK'' ''25/12/2024'' ''02/01/2025'' =
     (Inr ([direct_offer ''LA'' ''USD'' ''200''], []), fetched)"
  by (simp add: fetch_defs status503_world_def)

lemma status503_run:
  "run status503_world ''GRU'' ''JFK'' ''25/12/2024'' ''02/01/2025'' =
     (Inr \<lparr>outbound = [direct_result ''LATAM'' (Finite 1000)], return = []\<rparr>,
      fetched @ [RateCall ''USD''])"
  unfolding run_fetched [OF status503_fetch]
  by (simp add: rank_defs status503_world_def)

lemma no_auth_token: "amadeus_token no_auth_world [] = (Inl RequestException, [TokenCall])"
  by (simp add: amadeus_token_def no_auth_world_def world_defs)



subsection \<open>One offer\<close>

lemma normalize_fields:
  assumes "normalize_offer w table off = Inr n"
  shows "\<exists>it its seg segs amount rate.
           itineraries off = it # its \<and> segments it = seg # segs \<and>
           py_float w (grandTotal (price off)) = Inr amount \<and>
           table (currency (price off)) = Some rate \<and>
           n = \<lparr>company = company_name (carrierCode seg), departure_time = departure_at seg,
                arrival_time = arrival_at seg, stops = numberOfStops seg,
                seats_remaining = numberOfBookableSeats off,
                price_brl = py_round2 (fmul amount rate)\<rparr>"
  using assms unfolding normalize_offer_def first_segment_def
  by (auto split: sum.splits option.splits list.splits)

lemma company_name_display: "company_name code = display_name code"
  by (simp add: company_name_def companies_def display_name_def)

section \<open>The claims\<close>

subsection \<open>C1: each leg is sorted by price, and the sort is stable\<close>

text \<open>
  Claim C1, as amended. For every sequence of raw offers for a leg, the leg's result list
  produced by \<open>FlightSearchTool._run\<close> holds the normalized offers of the leg, each as
  often as the provider listed it. If no \<open>price_brl\<close> of the leg is NaN, the list is
  sorted non-decreasing by \<open>price_brl\<close> and the sort is stable: normalized offers of
  equal \<open>price_brl\<close> keep the relative order of their raw offers in the provider's list.

  \<open>out_n\<close> and \<open>ret_n\<close> are the normalized offers in the provider's order, one per raw
  offer. For every price \<open>p\<close>, the offers of price \<open>p\<close> occur in the result in the order
  in which they occur there.

  As the claim is written (sorted for every sequence of raw offers) it fails, as the
  counterexample after the witness shows.
\<close>

theorem sorted_stable:
  assumes "fetch_legs w origin destination d1 d2 = (Inr (outs, rets), c)"
    and "run w origin destination d1 d2 = (Inr r, c')"
  shows "\<exists>table out_n ret_n.
           list_all2 (\<lambda>off n. normalize_offer w table off = Inr n) outs out_n \<and>
           list_all2 (\<lambda>off n. normalize_offer w table off = Inr n) rets ret_n \<and>
           mset (outbound r) = mset out_n \<and> mset (return r) = mset ret_n \<and>
           ((\<forall>n\<in>set (outbound r). price_brl n \<noteq> NaN) \<longrightarrow>
              sorted_wrt fle (map price_brl (outbound r)) \<and>
              (\<forall>p. filter (\<lambda>n. price_brl n = p) (outbound r) = filter (\<lambda>n. price_brl n = p) out_n)) \<and>
           ((\<forall>n\<in>set (return r). price_brl n \<noteq> NaN) \<longrightarrow>
              sorted_wrt fle (map price_brl (return r)) \<and>
              (\<forall>p. filter (\<lambda>n. price_brl n = p) (return r) = filter (\<lambda>n. price_brl n = p) ret_n))"
proof -
  from run_success [OF assms] obtain table out_n ret_n where
    a: "list_all2 (\<lambda>off n. normalize_offer w table off = Inr n) outs out_n"
       "list_all2 (\<lambda>off n. normalize_offer w table off = Inr n) rets ret_n" and
    s: "outbound r = list_sort price_brl out_n" "return r = list_sort price_brl ret_n"
    by blast
  have m: "mset (outbound r) = mset out_n" "mset (return r) = mset ret_n"
    by (simp_all add: s mset_list_sort)
  have leg: "sorted_wrt fle (map price_brl (list_sort price_brl ns)) \<and>
      (\<forall>p. filter (\<lambda>n. price_brl n = p) (list_sort price_brl ns) = filter (\<lambda>n. price_brl n = p) ns)"
    if "\<forall>n\<in>set (list_sort price_brl ns). price_brl n \<noteq> NaN" for ns
  proof -
    from that have "\<forall>n\<in>set ns. price_brl n \<noteq> NaN"
      by (simp add: set_list_sort)
    then show ?thesis
      by (simp add: list_sort_sorted list_sort_stable)
  qed
  from leg [of out_n] leg [of ret_n] a m show ?thesis
    unfolding s by blast
qed

theorem sorted_stable_witness:
  "sorted_wrt fle (map price_brl (outbound (example_result drifting_world))) \<and>
   map price_brl (outbound (example_result drifting_world)) = [Finite 540, Finite 600, Finite 600] \<and>
   map company (outbound (example_result drifting_world)) = [''XX'', ''LATAM'', ''GOL''] \<and>
   map (\<lambda>off. company_name (carrierCode (hd (segments (hd (itineraries off)))))) scenario_offers
     = [''LATAM'', ''GOL'', ''XX'']"
proof -
  have "\<forall>n\<in>set (outbound (example_result drifting_world)). price_brl n \<noteq> NaN"
    by (simp add: drifting_result direct_result_def)
  with sorted_stable [OF drifting_fetch drifting_run [folded drifting_result]]
  have "sorted_wrt fle (map price_brl (outbound (example_result drifting_world)))" by blast
  moreover have "map price_brl (outbound (example_result drifting_world))
      = [Finite 540, Finite 600, Finite 600]"
    by (simp add: drifting_result direct_result_def)
  moreover have "map company (outbound (example_result drifting_world)) = [''XX'', ''LATAM'', ''GOL'']"
    by (simp add: drifting_result direct_result_def)
  moreover have "map (\<lambda>off. company_name (carrierCode (hd (segments (hd (itineraries off)))))) scenario_offers
     = [''LATAM'', ''GOL'', ''XX'']"
    by (simp add: scenario_offers_def direct_offer_def company_name_def companies_def)
  ultimately show ?thesis by blast
qed

text \<open>
  The totals 15, nan and 5 at the rate 1: every comparison with NaN is false, so the
  three offers are taken for an ascending run and stay where they are, the price 5 after
  the price 15.
\<close>

theorem unsorted_with_nan:
  "map (\<lambda>off. py_float nan_world (grandTotal (price off)))
     [direct_offer ''LA'' ''USD'' ''15'', direct_offer ''G3'' ''USD'' ''nan'',
      direct_offer ''AD'' ''USD'' ''5'']
     = [Inr (Finite 15), Inr NaN, Inr (Finite 5)] \<and>
   fetch_legs nan_world ''GRU'' ''JFK'' ''25/12/2024'' ''02/01/2025'' =
     (Inr ([direct_offer ''LA'' ''USD'' ''15'', direct_offer ''G3'' ''USD'' ''nan'',
            direct_offer ''AD'' ''USD'' ''5''], []), fetched) \<and>
   run nan_world ''GRU'' ''JFK'' ''25/12/2024'' ''02/01/2025'' =
     (Inr \<lparr>outbound = [direct_result ''LATAM'' (Finite 15), direct_result ''GOL'' NaN,
                        direct_result ''Azul'' (Finite 5)],
            return = []\<rparr>,
      fetched @ [RateCall ''USD'']) \<and>
   map price_brl [direct_result ''LATAM'' (Finite 15), direct_result ''GOL'' NaN,
                  direct_result ''Azul'' (Finite 5)] = [Finite 15, NaN, Finite 5] \<and>
   flt (Finite 5) (Finite 15) \<and>
   \<not> sorted_wrt fle [Finite 15, NaN, Finite 5]"
  by (simp add: nan_run nan_fetch)
    (simp add: direct_result_def direct_offer_def nan_world_def world_defs)

subsection \<open>C2: the scenario 200 USD, 150 EUR, 180 USD\<close>

text \<open>
  Claim C2. If a leg's raw offers have the totals 200 USD, 150 EUR, 180 USD, in the
  provider's order, and the rate lookups return 5.0 for USD and 5.5 for EUR, then the
  normalized prices are 1000.00, 825.00, 900.00 respectively and the leg's result list is
  ordered 825.00, 900.00, 1000.00. The leg is either of the two.
\<close>

theorem scenario_prices:
  assumes "fetch_legs w origin destination d1 d2 = (Inr (outs, rets), c)"
    and "run w origin destination d1 d2 = (Inr r, c')"
    and "(offers, leg) = (outs, outbound r) \<or> (offers, leg) = (rets, return r)"
    and "map (\<lambda>off. currency (price off)) offers = [''USD'', ''EUR'', ''USD'']"
    and "map (\<lambda>off. py_float w (grandTotal (price off))) offers = [Inr (Finite 200), Inr (Finite 150), Inr (Finite 180)]"
    and "\<forall>h. fst (get_rate w ''USD'' h) = Inr (Finite 5)"
    and "\<forall>h. fst (get_rate w ''EUR'' h) = Inr (Finite (11 / 2))"
  shows "\<exists>table ns.
           list_all2 (\<lambda>off n. normalize_offer w table off = Inr n) offers ns \<and>
           map price_brl ns = [Finite 1000, Finite 825, Finite 900] \<and>
           leg = list_sort price_brl ns \<and>
           map price_brl leg = [Finite 825, Finite 900, Finite 1000]"
proof -
  from run_success [OF assms(1,2)] assms(3) obtain table ns where
    a: "list_all2 (\<lambda>off n. normalize_offer w table off = Inr n) offers ns" and
    s: "leg = list_sort price_brl ns" and l: "looked_up w table"
    by auto
  have rate: "v = r" if "table cur = Some v" "\<forall>h. fst (get_rate w cur h) = Inr r" for cur v r
  proof -
    from l that(1) obtain h where "get_rate w cur h = (Inr v, h @ [RateCall cur])"
      unfolding looked_up_def by blast
    with that(2) show ?thesis by (metis Inr_inject fst_conv)
  qed
  from assms(4) obtain o1 o2 o3 where offers: "offers = [o1, o2, o3]"
    by (auto simp: map_eq_Cons_conv)
  with a obtain n1 n2 n3 where ns: "ns = [n1, n2, n3]" and
    n: "normalize_offer w table o1 = Inr n1" "normalize_offer w table o2 = Inr n2" "normalize_offer w table o3 = Inr n3"
    by (auto simp: list_all2_Cons1)
  from offers assms(4,5) have
    cur: "currency (price o1) = ''USD''" "currency (price o2) = ''EUR''" "currency (price o3) = ''USD''" and
    amt: "py_float w (grandTotal (price o1)) = Inr (Finite 200)"
      "py_float w (grandTotal (price o2)) = Inr (Finite 150)"
      "py_float w (grandTotal (price o3)) = Inr (Finite 180)"
    by simp_all
  have price: "price_brl n = py_round2 (fmul amount r)"
    if "normalize_offer w table off = Inr n" "py_float w (grandTotal (price off)) = Inr amount"
      "currency (price off) = cur" "\<forall>h. fst (get_rate w cur h) = Inr r" for off n amount cur r
  proof -
    from normalize_fields [OF that(1)] that(2,3) obtain v where
      "table cur = Some v" "price_brl n = py_round2 (fmul amount v)"
      by auto
    with rate [OF _ that(4)] show ?thesis by simp
  qed
  have "price_brl n1 = py_round2 (fmul (Finite 200) (Finite 5))"
    by (rule price [OF n(1) amt(1) cur(1) assms(6)])
  then have p1: "price_brl n1 = Finite 1000"
    by (simp add: float_simps)
  have "price_brl n2 = py_round2 (fmul (Finite 150) (Finite (11 / 2)))"
    by (rule price [OF n(2) amt(2) cur(2) assms(7)])
  then have p2: "price_brl n2 = Finite 825"
    by (simp add: float_simps)
  have "price_brl n3 = py_round2 (fmul (Finite 180) (Finite 5))"
    by (rule price [OF n(3) amt(3) cur(3) assms(6)])
  then have p3: "price_brl n3 = Finite 900"
    by (simp add: float_simps)
  have prices: "map price_brl ns = [Finite 1000, Finite 825, Finite 900]"
    using p1 p2 p3 by (simp add: ns)
  have "list_sort price_brl ns = [n2, n3, n1]"
    unfolding ns by (simp add: sort_defs p1 p2 p3)
  with s have "map price_brl leg = [Finite 825, Finite 900, Finite 1000]"
    by (simp add: p1 p2 p3)
  with a prices s show ?thesis
    by (intro exI [of _ table] exI [of _ ns] conjI)
qed

theorem scenario_prices_witness:
  "map (\<lambda>off. (grandTotal (price off), currency (price off))) scenario_offers
     = [(''200'', ''USD''), (''150'', ''EUR''), (''180'', ''USD'')] \<and>
   map price_brl (outbound (example_result scenario_world))
     = [Finite 825, Finite 900, Finite 1000]"
proof -
  have usd: "\<forall>h. fst (get_rate scenario_world ''USD'' h) = Inr (Finite 5)"
    by (simp add: get_rate_def scenario_world_def example_world_def json_item_def scenario_rate_def)
  have eur: "\<forall>h. fst (get_rate scenario_world ''EUR'' h) = Inr (Finite (11 / 2))"
    by (simp add: get_rate_def scenario_world_def example_world_def json_item_def scenario_rate_def)
  have cur: "map (\<lambda>off. currency (price off)) scenario_offers = [''USD'', ''EUR'', ''USD'']"
    by (simp add: scenario_offers_def direct_offer_def)
  have amt: "map (\<lambda>off. py_float scenario_world (grandTotal (price off))) scenario_offers
      = [Inr (Finite 200), Inr (Finite 150), Inr (Finite 180)]"
    by (simp add: scenario_offers_def direct_offer_def scenario_world_def world_defs)
  have leg: "(scenario_offers, outbound (example_result scenario_world))
        = (scenario_offers, outbound (example_result scenario_world)) \<or>
      (scenario_offers, outbound (example_result scenario_world))
        = ([connecting_offer], return (example_result scenario_world))"
    by simp
  from scenario_prices [OF scenario_fetch scenario_run [folded scenario_result] leg cur amt usd eur]
  have "map price_brl (outbound (example_result scenario_world))
      = [Finite 825, Finite 900, Finite 1000]"
    by blast
  moreover have "map (\<lambda>off. (grandTotal (price off), currency (price off))) scenario_offers
     = [(''200'', ''USD''), (''150'', ''EUR''), (''180'', ''USD'')]"
    by (simp add: scenario_offers_def direct_offer_def)
  ultimately show ?thesis by blast
qed

subsection \<open>C3: one rate lookup per currency, one rate for all its offers\<close>

text \<open>
  Claim C3. Within one invocation of \<open>_run\<close>, \<open>_get_rate\<close> is called at most once for
  each distinct currency that occurs in the offers of the two legs, the rate stored for
  a currency is never overwritten, and every offer priced in that currency, in either leg,
  is converted with that one rate.

  The rate requests of the invocation are pairwise distinct currencies of the offers,
  whether it ends with a result or with an exception; the only place that writes the
  table, \<open>ensure_rate\<close>, keeps every entry there is; and a result is made of both legs'
  offers normalized with one and the same table, whose keys are the currencies of the
  offers and whose entries are rates that \<open>_get_rate\<close> returned.
\<close>

theorem one_rate_per_currency:
  "distinct (rate_calls (snd (run w origin destination d1 d2))) \<and>
   (\<forall>cur rates h rates' h' k v.
      ensure_rate w cur rates h = (Inr rates', h') \<and> rates k = Some v \<longrightarrow> rates' k = Some v) \<and>
   (fetch_legs w origin destination d1 d2 = (Inr (outs, rets), c) \<longrightarrow>
      set (rate_calls (snd (run w origin destination d1 d2))) \<subseteq> currencies (outs @ rets) \<and>
      length (rate_calls (snd (run w origin destination d1 d2))) \<le> card (currencies (outs @ rets)) \<and>
      (\<forall>r c'. run w origin destination d1 d2 = (Inr r, c') \<longrightarrow>
         (\<exists>table out_n ret_n.
            set (rate_calls c') = currencies (outs @ rets) \<and>
            dom table = currencies (outs @ rets) \<and> looked_up w table \<and>
            list_all2 (\<lambda>off n. normalize_offer w table off = Inr n) outs out_n \<and>
            list_all2 (\<lambda>off n. normalize_offer w table off = Inr n) rets ret_n \<and>
            outbound r = list_sort price_brl out_n \<and> return r = list_sort price_brl ret_n)))"
proof -
  have k: "\<forall>cur rates h rates' h' k v.
      ensure_rate w cur rates h = (Inr rates', h') \<and> rates k = Some v \<longrightarrow> rates' k = Some v"
    by (blast intro: ensure_rate_keeps)
  have after_fetch: "set (rate_calls (snd (run w origin destination d1 d2))) \<subseteq> currencies (outs @ rets) \<and>
      length (rate_calls (snd (run w origin destination d1 d2))) \<le> card (currencies (outs @ rets)) \<and>
      (\<forall>r c'. run w origin destination d1 d2 = (Inr r, c') \<longrightarrow>
         (\<exists>table out_n ret_n.
            set (rate_calls c') = currencies (outs @ rets) \<and>
            dom table = currencies (outs @ rets) \<and> looked_up w table \<and>
            list_all2 (\<lambda>off n. normalize_offer w table off = Inr n) outs out_n \<and>
            list_all2 (\<lambda>off n. normalize_offer w table off = Inr n) rets ret_n \<and>
            outbound r = list_sort price_brl out_n \<and> return r = list_sort price_brl ret_n))"
    if assms: "fetch_legs w origin destination d1 d2 = (Inr (outs, rets), c)"
  proof -
    let ?calls = "rate_calls (snd (run w origin destination d1 d2))"
    from run_rate_calls [OF assms] have d: "distinct ?calls" and
      s: "set ?calls \<subseteq> currencies (outs @ rets)"
      by (simp_all add: currencies_def)
    have "length ?calls = card (set ?calls)"
      using d by (simp add: distinct_card)
    also have "\<dots> \<le> card (currencies (outs @ rets))"
      using s by (intro card_mono) (simp_all add: currencies_def)
    finally have l: "length ?calls \<le> card (currencies (outs @ rets))" .
    have t: "\<exists>table out_n ret_n.
        set (rate_calls c') = currencies (outs @ rets) \<and>
        dom table = currencies (outs @ rets) \<and> looked_up w table \<and>
        list_all2 (\<lambda>off n. normalize_offer w table off = Inr n) outs out_n \<and>
        list_all2 (\<lambda>off n. normalize_offer w table off = Inr n) rets ret_n \<and>
        outbound r = list_sort price_brl out_n \<and> return r = list_sort price_brl ret_n"
      if run: "run w origin destination d1 d2 = (Inr r, c')" for r c'
    proof -
      from assms run obtain table where rk: "rank_legs w outs rets c = (Inr (r, table), c')"
        by (auto simp: run_fetched split: prod.splits sum.splits)
      from rank_legs_Inr [OF rk] obtain out_n ret_n where
        a: "list_all2 (\<lambda>off n. normalize_offer w table off = Inr n) outs out_n"
           "list_all2 (\<lambda>off n. normalize_offer w table off = Inr n) rets ret_n" and
        o: "outbound r = list_sort price_brl out_n" "return r = list_sort price_brl ret_n" and
        lk: "looked_up w table"
        by blast
      from rank_legs_calls [OF rk] obtain cs where
        cs: "c' = c @ map RateCall cs" "set cs \<subseteq> (\<lambda>off. currency (price off)) ` set (outs @ rets)"
          "dom table = set cs"
        by auto
      from fetch_legs_no_rate_calls [of w origin destination d1 d2] assms
      have "rate_calls c = []" by simp
      with cs(1) have rc: "rate_calls c' = cs"
        by (simp add: rate_calls_append rate_calls_map)
      have "currency (price off) \<in> dom table" if "off \<in> set (outs @ rets)" for off
      proof -
        from that a obtain n where "normalize_offer w table off = Inr n"
          by (auto simp: list_all2_conv_all_nth in_set_conv_nth)
        from normalize_fields [OF this] show ?thesis by auto
      qed
      with cs(2,3) have "dom table = currencies (outs @ rets)"
        unfolding currencies_def by blast
      with rc cs(3) a o lk show ?thesis by auto
    qed
    from s l t show ?thesis by blast
  qed
  from run_rate_calls_distinct [of w origin destination d1 d2] k after_fetch show ?thesis by blast
qed

theorem one_rate_per_currency_witness:
  "rate_calls (snd (run drifting_world ''GRU'' ''JFK'' ''25/12/2024'' ''02/01/2025'')) = [''USD'', ''EUR''] \<and>
   distinct (rate_calls (snd (run drifting_world ''GRU'' ''JFK'' ''25/12/2024'' ''02/01/2025''))) \<and>
   set (rate_calls (snd (run drifting_world ''GRU'' ''JFK'' ''25/12/2024'' ''02/01/2025'')))
     \<subseteq> currencies (scenario_offers @ [direct_offer ''AD'' ''USD'' ''200'']) \<and>
   map (\<lambda>off. currency (price off)) (scenario_offers @ [direct_offer ''AD'' ''USD'' ''200''])
     = [''USD'', ''EUR'', ''USD'', ''USD''] \<and>
   map price_brl (outbound (example_result drifting_world))
     = [Finite 540, Finite 600, Finite 600] \<and>
   map price_brl (return (example_result drifting_world)) = [Finite 600] \<and>
   fst (get_rate drifting_world ''USD'' fetched) = Inr (Finite 3) \<and>
   fst (get_rate drifting_world ''USD'' (fetched @ [RateCall ''USD'', RateCall ''EUR'']))
     = Inr (Finite 5)"
proof -
  from one_rate_per_currency [of drifting_world "''GRU''" "''JFK''" "''25/12/2024''" "''02/01/2025''"
      scenario_offers "[direct_offer ''AD'' ''USD'' ''200'']" fetched] drifting_fetch
  have "distinct (rate_calls (snd (run drifting_world ''GRU'' ''JFK'' ''25/12/2024'' ''02/01/2025'')))"
    "set (rate_calls (snd (run drifting_world ''GRU'' ''JFK'' ''25/12/2024'' ''02/01/2025'')))
       \<subseteq> currencies (scenario_offers @ [direct_offer ''AD'' ''USD'' ''200''])"
    by blast+
  moreover have "rate_calls (snd (run drifting_world ''GRU'' ''JFK'' ''25/12/2024'' ''02/01/2025''))
      = [''USD'', ''EUR'']"
    by (simp add: drifting_run fetched_def rate_calls_append)
  moreover have "map (\<lambda>off. currency (price off)) (scenario_offers @ [direct_offer ''AD'' ''USD'' ''200''])
     = [''USD'', ''EUR'', ''USD'', ''USD'']"
    by (simp add: scenario_offers_def direct_offer_def)
  moreover have "map price_brl (outbound (example_result drifting_world))
     = [Finite 540, Finite 600, Finite 600]"
    by (simp add: drifting_result direct_result_def)
  moreover have "map price_brl (return (example_result drifting_world)) = [Finite 600]"
    by (simp add: drifting_result direct_result_def)
  moreover have "fst (get_rate drifting_world ''USD'' fetched) = Inr (Finite 3)"
    "fst (get_rate drifting_world ''USD'' (fetched @ [RateCall ''USD'', RateCall ''EUR'']))
     = Inr (Finite 5)"
    by (simp_all add: get_rate_def json_item_def drifting_world_def world_defs fetched_def)
  ultimately show ?thesis by blast
qed

subsection \<open>C4: the two fetches and the dates\<close>





subsection \<open>C5: when a leg fetch fails\<close>

text \<open>
  Claim C5, as amended. \<open>_search_leg\<close> sends exactly one request, so nothing is
  retried. It fails exactly when the transport fails, or the body is not JSON, or the
  JSON is not an object, or the object has no key \<open>data\<close>; the status code is not
  looked at. A failure of either leg's fetch is the exception that \<open>_run\<close> raises.

  As the claim is written (a non-success status makes the call fail) it fails, as the
  counterexample after the witness shows.
\<close>

theorem search_leg_failure:
  "snd (search_leg w token origin dest date calls) = calls @ [SearchCall token origin dest date] \<and>
   (isl (fst (search_leg w token origin dest date calls)) \<longleftrightarrow>
      offers_endpoint w calls token origin dest date = NoReply \<or>
      (\<exists>status. offers_endpoint w calls token origin dest date = Reply status NotJson) \<or>
      (\<exists>status. offers_endpoint w calls token origin dest date = Reply status JsonOther) \<or>
      (\<exists>status m. offers_endpoint w calls token origin dest date = Reply status (JsonObject m) \<and>
         m ''data'' = None)) \<and>
   (amadeus_token w [] = (Inr token, c1) \<and> to_iso d1 = Inr i1 \<and>
    search_leg w token origin dest i1 c1 = (Inl e, c2) \<longrightarrow>
      run w origin dest d1 d2 = (Inl e, [TokenCall, SearchCall token origin dest i1])) \<and>
   (amadeus_token w [] = (Inr token, c1) \<and> to_iso d1 = Inr i1 \<and>
    search_leg w token origin dest i1 c1 = (Inr outs, c2) \<and> to_iso d2 = Inr i2 \<and>
    search_leg w token dest origin i2 c2 = (Inl e, c3) \<longrightarrow>
      run w origin dest d1 d2
        = (Inl e, [TokenCall, SearchCall token origin dest i1, SearchCall token dest origin i2]))"
proof -
  have once: "snd (search_leg w token origin dest date calls)
      = calls @ [SearchCall token origin dest date]"
    by (rule search_leg_calls)
  have fails: "isl (fst (search_leg w token origin dest date calls)) \<longleftrightarrow>
      offers_endpoint w calls token origin dest date = NoReply \<or>
      (\<exists>status. offers_endpoint w calls token origin dest date = Reply status NotJson) \<or>
      (\<exists>status. offers_endpoint w calls token origin dest date = Reply status JsonOther) \<or>
      (\<exists>status m. offers_endpoint w calls token origin dest date = Reply status (JsonObject m) \<and>
         m ''data'' = None)"
    by (cases "offers_endpoint w calls token origin dest date")
      (auto simp: search_leg_def json_item_isl)
  have first_leg: "run w origin dest d1 d2 = (Inl e, [TokenCall, SearchCall token origin dest i1])"
    if t: "amadeus_token w [] = (Inr token, c1)" and i: "to_iso d1 = Inr i1" and
      s: "search_leg w token origin dest i1 c1 = (Inl e, c2)"
  proof -
    from t have "c1 = [TokenCall]" by (auto dest: amadeus_token_Inr)
    with s have "c2 = [TokenCall, SearchCall token origin dest i1]"
      by (auto dest: search_leg_Inr)
    with fetch_legs_first(2) [OF t i s] show ?thesis
      by (simp add: run_fetch_failed)
  qed
  have second_leg: "run w origin dest d1 d2
        = (Inl e, [TokenCall, SearchCall token origin dest i1, SearchCall token dest origin i2])"
    if t: "amadeus_token w [] = (Inr token, c1)" and i: "to_iso d1 = Inr i1" and
      s: "search_leg w token origin dest i1 c1 = (Inr outs, c2)" and j: "to_iso d2 = Inr i2" and
      s2: "search_leg w token dest origin i2 c2 = (Inl e, c3)"
  proof -
    from t have "c1 = [TokenCall]" by (auto dest: amadeus_token_Inr)
    with s have c2: "c2 = [TokenCall, SearchCall token origin dest i1]"
      by (auto dest: search_leg_Inr)
    with s2 have "c3 = [TokenCall, SearchCall token origin dest i1, SearchCall token dest origin i2]"
      by (auto dest: search_leg_Inr)
    with fetch_legs_second [OF t i s, of d2] j s2 c2 show ?thesis
      by (simp add: run_fetch_failed)
  qed
  from once fails first_leg second_leg show ?thesis by blast
qed

theorem search_leg_failure_witness:
  "run no_search_world ''GRU'' ''JFK'' ''25/12/2024'' ''02/01/2025''
     = (Inl RequestException, [TokenCall, SearchCall ''tok'' ''GRU'' ''JFK'' ''2024-12-25'']) \<and>
   offers_endpoint no_search_world [TokenCall] ''tok'' ''GRU'' ''JFK'' ''2024-12-25'' = NoReply"
proof -
  have t: "amadeus_token no_search_world [] = (Inr ''tok'', [TokenCall])"
    by (simp add: amadeus_token_def json_item_def no_search_world_def world_defs)
  have n: "offers_endpoint no_search_world [TokenCall] ''tok'' ''GRU'' ''JFK'' ''2024-12-25'' = NoReply"
    by (simp add: no_search_world_def world_defs)
  then have s: "search_leg no_search_world ''tok'' ''GRU'' ''JFK'' ''2024-12-25'' [TokenCall]
      = (Inl RequestException, [TokenCall, SearchCall ''tok'' ''GRU'' ''JFK'' ''2024-12-25''])"
    by (simp add: search_leg_def)
  from search_leg_failure [of no_search_world "''tok''" "''GRU''" "''JFK''" "''2024-12-25''" "[TokenCall]"
      "[TokenCall]" "''25/12/2024''" "''2024-12-25''" RequestException
      "[TokenCall, SearchCall ''tok'' ''GRU'' ''JFK'' ''2024-12-25'']" "''02/01/2025''"]
    t s to_iso_departure
  have "run no_search_world ''GRU'' ''JFK'' ''25/12/2024'' ''02/01/2025''
     = (Inl RequestException, [TokenCall, SearchCall ''tok'' ''GRU'' ''JFK'' ''2024-12-25''])"
    by blast
  with n show ?thesis by blast
qed

text \<open>
  A response with status 503 whose body is an object with offers under \<open>data\<close>: the
  fetch returns the offers and the invocation a result.
\<close>

theorem search_leg_ignores_status:
  "offers_endpoint status503_world [TokenCall] ''tok'' ''GRU'' ''JFK'' ''2024-12-25''
     = Reply 503 (JsonObject [''data'' \<mapsto> [direct_offer ''LA'' ''USD'' ''200'']]) \<and>
   search_leg status503_world ''tok'' ''GRU'' ''JFK'' ''2024-12-25'' [TokenCall]
     = (Inr [direct_offer ''LA'' ''USD'' ''200''],
        [TokenCall, SearchCall ''tok'' ''GRU'' ''JFK'' ''2024-12-25'']) \<and>
   run status503_world ''GRU'' ''JFK'' ''25/12/2024'' ''02/01/2025''
     = (Inr \<lparr>outbound = [direct_result ''LATAM'' (Finite 1000)], return = []\<rparr>,
        fetched @ [RateCall ''USD''])"
  by (simp add: status503_run) (simp add: search_leg_def json_item_def status503_world_def world_defs)

subsection \<open>C6: no token, no fetch and no result\<close>

text \<open>
  Claim C6. If the authentication call \<open>_amadeus_token\<close> fails, no leg fetch is
  performed in that invocation and \<open>_run\<close> produces no result object: it raises the
  exception of the authentication call, having sent the token request only.
\<close>

theorem no_token_no_fetch:
  assumes "amadeus_token w [] = (Inl e, c)"
  shows "run w origin destination d1 d2 = (Inl e, [TokenCall]) \<and>
         search_calls (snd (run w origin destination d1 d2)) = [] \<and>
         rate_calls (snd (run w origin destination d1 d2)) = []"
proof -
  from assms have "c = [TokenCall]" by (auto dest: amadeus_token_Inr)
  with assms have "fetch_legs w origin destination d1 d2 = (Inl e, [TokenCall])"
    by (simp add: fetch_legs_def)
  then have "run w origin destination d1 d2 = (Inl e, [TokenCall])"
    by (rule run_fetch_failed)
  then show ?thesis by simp
qed

theorem no_token_no_fetch_witness:
  "run no_auth_world ''GRU'' ''JFK'' ''25/12/2024'' ''02/01/2025'' = (Inl RequestException, [TokenCall]) \<and>
   search_calls (snd (run no_auth_world ''GRU'' ''JFK'' ''25/12/2024'' ''02/01/2025'')) = []"
  using no_token_no_fetch [OF no_auth_token] by simp

subsection \<open>C7: the sign of the prices\<close>

text \<open>
  Claim C7, as amended. Every normalized offer's \<open>price_brl\<close> is the offer's total, as
  \<open>float\<close> reads it, times the rate stored for the offer's currency, the product
  rounded to two decimals, all in double arithmetic; the rate is one that \<open>_get_rate\<close>
  returned, that is the BRL entry of a rates response. The price is non-negative
  whenever the total and the rate are non-negative and their product is not NaN (it
  is NaN only for an infinity times zero). No sign is checked.

  As the claim is written (non-negative for every input of the provider and the rate
  service) it fails, as the counterexample after the witness shows.
\<close>

theorem price_sign:
  assumes "fetch_legs w origin destination d1 d2 = (Inr (outs, rets), c)"
    and "run w origin destination d1 d2 = (Inr r, c')"
  shows "\<exists>table out_n ret_n.
           looked_up w table \<and>
           outbound r = list_sort price_brl out_n \<and> return r = list_sort price_brl ret_n \<and>
           list_all2 (\<lambda>off n. \<exists>amount rate.
              py_float w (grandTotal (price off)) = Inr amount \<and>
              table (currency (price off)) = Some rate \<and>
              price_brl n = py_round2 (fmul amount rate) \<and>
              (fle (Finite 0) amount \<and> fle (Finite 0) rate \<and> fmul amount rate \<noteq> NaN \<longrightarrow>
                 fle (Finite 0) (price_brl n))) outs out_n \<and>
           list_all2 (\<lambda>off n. \<exists>amount rate.
              py_float w (grandTotal (price off)) = Inr amount \<and>
              table (currency (price off)) = Some rate \<and>
              price_brl n = py_round2 (fmul amount rate) \<and>
              (fle (Finite 0) amount \<and> fle (Finite 0) rate \<and> fmul amount rate \<noteq> NaN \<longrightarrow>
                 fle (Finite 0) (price_brl n))) rets ret_n"
proof -
  from run_success [OF assms] obtain table out_n ret_n where
    a: "list_all2 (\<lambda>off n. normalize_offer w table off = Inr n) outs out_n"
       "list_all2 (\<lambda>off n. normalize_offer w table off = Inr n) rets ret_n" and
    s: "outbound r = list_sort price_brl out_n" "return r = list_sort price_brl ret_n" and
    l: "looked_up w table"
    by blast
  have f: "\<exists>amount rate.
      py_float w (grandTotal (price off)) = Inr amount \<and>
      table (currency (price off)) = Some rate \<and>
      price_brl n = py_round2 (fmul amount rate) \<and>
      (fle (Finite 0) amount \<and> fle (Finite 0) rate \<and> fmul amount rate \<noteq> NaN \<longrightarrow>
         fle (Finite 0) (price_brl n))"
    if "normalize_offer w table off = Inr n" for off n
  proof -
    from normalize_fields [OF that] obtain amount rate where
      p: "py_float w (grandTotal (price off)) = Inr amount"
        "table (currency (price off)) = Some rate" "price_brl n = py_round2 (fmul amount rate)"
      by auto
    have "fle (Finite 0) amount \<and> fle (Finite 0) rate \<and> fmul amount rate \<noteq> NaN \<longrightarrow>
        fle (Finite 0) (price_brl n)"
      by (simp add: p(3) py_round2_nonneg fmul_nonneg)
    with p show ?thesis by blast
  qed
  from a have "list_all2 (\<lambda>off n. \<exists>amount rate.
      py_float w (grandTotal (price off)) = Inr amount \<and>
      table (currency (price off)) = Some rate \<and>
      price_brl n = py_round2 (fmul amount rate) \<and>
      (fle (Finite 0) amount \<and> fle (Finite 0) rate \<and> fmul amount rate \<noteq> NaN \<longrightarrow>
         fle (Finite 0) (price_brl n))) outs out_n"
    "list_all2 (\<lambda>off n. \<exists>amount rate.
      py_float w (grandTotal (price off)) = Inr amount \<and>
      table (currency (price off)) = Some rate \<and>
      price_brl n = py_round2 (fmul amount rate) \<and>
      (fle (Finite 0) amount \<and> fle (Finite 0) rate \<and> fmul amount rate \<noteq> NaN \<longrightarrow>
         fle (Finite 0) (price_brl n))) rets ret_n"
    by (auto elim!: list_all2_mono dest: f)
  with s l show ?thesis by blast
qed

theorem price_sign_witness:
  "\<exists>n. return (example_result scenario_world) = [n] \<and> price_brl n = Finite 750 \<and>
       fle (Finite 0) (price_brl n)"
proof -
  from price_sign [OF scenario_fetch scenario_run [folded scenario_result]] obtain table ret_n where
    l: "looked_up scenario_world table" and
    s: "return (example_result scenario_world) = list_sort price_brl ret_n" and
    a: "list_all2 (\<lambda>off n. \<exists>amount rate.
              py_float scenario_world (grandTotal (price off)) = Inr amount \<and>
              table (currency (price off)) = Some rate \<and>
              price_brl n = py_round2 (fmul amount rate) \<and>
              (fle (Finite 0) amount \<and> fle (Finite 0) rate \<and> fmul amount rate \<noteq> NaN \<longrightarrow>
                 fle (Finite 0) (price_brl n))) [connecting_offer] ret_n"
    by blast
  from a obtain n amount rate where n: "ret_n = [n]" and
    p: "py_float scenario_world (grandTotal (price connecting_offer)) = Inr amount"
      "table (currency (price connecting_offer)) = Some rate"
      "price_brl n = py_round2 (fmul amount rate)"
      "fle (Finite 0) amount \<and> fle (Finite 0) rate \<and> fmul amount rate \<noteq> NaN \<longrightarrow>
         fle (Finite 0) (price_brl n)"
    by (auto simp: list_all2_Cons1)
  from p(1) have amount: "amount = Finite 150"
    by (simp add: connecting_offer_def scenario_world_def world_defs)
  from p(2) have "table ''USD'' = Some rate"
    by (simp add: connecting_offer_def)
  with l obtain h where "get_rate scenario_world ''USD'' h = (Inr rate, h @ [RateCall ''USD''])"
    unfolding looked_up_def by blast
  then have rate: "rate = Finite 5"
    by (simp add: get_rate_def json_item_def scenario_world_def world_defs)
  from p(3) amount rate have "price_brl n = Finite 750"
    by (simp add: float_simps)
  moreover from p(4) amount rate have "fle (Finite 0) (price_brl n)"
    by (simp add: float_simps)
  moreover from s n have "return (example_result scenario_world) = [n]"
    by (simp add: sort_defs)
  ultimately show ?thesis by blast
qed

text \<open>A total of -10.00 USD at the rate 5 gives the price -50.\<close>

theorem negative_price:
  "py_float negative_world (grandTotal (price (direct_offer ''LA'' ''USD'' ''-10.00'')))
     = Inr (Finite (- 10)) \<and>
   fst (get_rate negative_world ''USD'' fetched) = Inr (Finite 5) \<and>
   run negative_world ''GRU'' ''JFK'' ''25/12/2024'' ''02/01/2025''
     = (Inr \<lparr>outbound = [direct_result ''LATAM'' (Finite (- 50))], return = []\<rparr>,
        fetched @ [RateCall ''USD'']) \<and>
   flt (price_brl (direct_result ''LATAM'' (Finite (- 50)))) (Finite 0)"
  by (simp add: negative_run)
    (simp add: direct_result_def direct_offer_def get_rate_def json_item_def negative_world_def world_defs)

subsection \<open>C8: one normalized offer per raw offer\<close>

text \<open>
  Claim C8. For every list of raw offers that the provider delivers for a leg, the result
  list of that leg has exactly one normalized offer per raw offer: the same length, with
  no truncation or filtering, also when the provider delivers more than 20 entries.
\<close>

theorem one_per_offer:
  assumes "fetch_legs w origin destination d1 d2 = (Inr (outs, rets), c)"
    and "run w origin destination d1 d2 = (Inr r, c')"
  shows "length (outbound r) = length outs \<and> length (return r) = length rets \<and>
         (\<exists>table out_n ret_n.
            list_all2 (\<lambda>off n. normalize_offer w table off = Inr n) outs out_n \<and>
            list_all2 (\<lambda>off n. normalize_offer w table off = Inr n) rets ret_n \<and>
            outbound r = list_sort price_brl out_n \<and> return r = list_sort price_brl ret_n)"
proof -
  from run_success [OF assms] obtain table out_n ret_n where
    a: "list_all2 (\<lambda>off n. normalize_offer w table off = Inr n) outs out_n"
       "list_all2 (\<lambda>off n. normalize_offer w table off = Inr n) rets ret_n" and
    s: "outbound r = list_sort price_brl out_n" "return r = list_sort price_brl ret_n"
    by blast
  from a have "length out_n = length outs" "length ret_n = length rets"
    by (simp_all add: list_all2_lengthD)
  with s have "length (outbound r) = length outs" "length (return r) = length rets"
    by (simp_all add: length_list_sort)
  with a s show ?thesis by blast
qed

theorem one_per_offer_witness:
  "length (replicate 21 (direct_offer ''LA'' ''USD'' ''200'')) = 21 \<and>
   length (outbound (example_result crowded_world)) = 21 \<and>
   length (return (example_result crowded_world)) = 1"
  using one_per_offer [OF crowded_fetch crowded_run [folded crowded_result]]
  by (simp add: crowded_result)

subsection \<open>C9: the company name\<close>

text \<open>
  Claim C9, as amended. For every raw offer, the \<open>company\<close> of its normalized offer is
  LATAM, GOL, Azul or Voepass when the carrier code of the first segment is LA, G3, AD or
  2Z, and is the carrier code itself otherwise: the lookup does not fail on an unknown
  carrier, and the name is empty exactly when the carrier code is empty.

  As the claim is written (no empty name for an unknown carrier) it fails, as the
  counterexample after the witness shows.
\<close>

theorem company_of_carrier:
  assumes "fetch_legs w origin destination d1 d2 = (Inr (outs, rets), c)"
    and "run w origin destination d1 d2 = (Inr r, c')"
  shows "\<exists>out_n ret_n.
           outbound r = list_sort price_brl out_n \<and> return r = list_sort price_brl ret_n \<and>
           list_all2 (\<lambda>off n. \<exists>seg. first_segment off = Inr seg \<and>
              company n = display_name (carrierCode seg) \<and>
              (carrierCode seg \<noteq> [] \<longrightarrow> company n \<noteq> []) \<and>
              (company n = [] \<longleftrightarrow> carrierCode seg = [])) outs out_n \<and>
           list_all2 (\<lambda>off n. \<exists>seg. first_segment off = Inr seg \<and>
              company n = display_name (carrierCode seg) \<and>
              (carrierCode seg \<noteq> [] \<longrightarrow> company n \<noteq> []) \<and>
              (company n = [] \<longleftrightarrow> carrierCode seg = [])) rets ret_n"
proof -
  from run_success [OF assms] obtain table out_n ret_n where
    a: "list_all2 (\<lambda>off n. normalize_offer w table off = Inr n) outs out_n"
       "list_all2 (\<lambda>off n. normalize_offer w table off = Inr n) rets ret_n" and
    s: "outbound r = list_sort price_brl out_n" "return r = list_sort price_brl ret_n"
    by blast
  have f: "\<exists>seg. first_segment off = Inr seg \<and> company n = display_name (carrierCode seg) \<and>
      (carrierCode seg \<noteq> [] \<longrightarrow> company n \<noteq> []) \<and>
      (company n = [] \<longleftrightarrow> carrierCode seg = [])"
    if "normalize_offer w table off = Inr n" for off n
  proof -
    from normalize_fields [OF that] obtain it its seg segs where
      "itineraries off = it # its" "segments it = seg # segs"
      "company n = company_name (carrierCode seg)"
      by auto
    then have "first_segment off = Inr seg" "company n = display_name (carrierCode seg)"
      by (simp_all add: first_segment_def company_name_display)
    moreover have "display_name code = [] \<longleftrightarrow> code = []" for code
      by (simp add: display_name_def)
    ultimately show ?thesis by auto
  qed
  from a have "list_all2 (\<lambda>off n. \<exists>seg. first_segment off = Inr seg \<and>
      company n = display_name (carrierCode seg) \<and>
      (carrierCode seg \<noteq> [] \<longrightarrow> company n \<noteq> []) \<and>
      (company n = [] \<longleftrightarrow> carrierCode seg = [])) outs out_n"
    "list_all2 (\<lambda>off n. \<exists>seg. first_segment off = Inr seg \<and>
      company n = display_name (carrierCode seg) \<and>
      (carrierCode seg \<noteq> [] \<longrightarrow> company n \<noteq> []) \<and>
      (company n = [] \<longleftrightarrow> carrierCode seg = [])) rets ret_n"
    by (auto elim!: list_all2_mono dest: f)
  with s show ?thesis by blast
qed

theorem company_of_carrier_witness:
  "(\<exists>n. return (example_result scenario_world) = [n] \<and> company n = ''Voepass'') \<and>
   map (\<lambda>off. carrierCode (hd (segments (hd (itineraries off))))) (scenario_offers @ [connecting_offer])
     = [''LA'', ''G3'', ''XX'', ''2Z''] \<and>
   map company (outbound (example_result scenario_world)) = [''GOL'', ''XX'', ''LATAM'']"
proof -
  from company_of_carrier [OF scenario_fetch scenario_run [folded scenario_result]] obtain ret_n where
    s: "return (example_result scenario_world) = list_sort price_brl ret_n" and
    a: "list_all2 (\<lambda>off n. \<exists>seg. first_segment off = Inr seg \<and>
              company n = display_name (carrierCode seg) \<and>
              (carrierCode seg \<noteq> [] \<longrightarrow> company n \<noteq> []) \<and>
              (company n = [] \<longleftrightarrow> carrierCode seg = [])) [connecting_offer] ret_n"
    by blast
  from a obtain n where n: "ret_n = [n]" and
    "\<exists>seg. first_segment connecting_offer = Inr seg \<and> company n = display_name (carrierCode seg)"
    by (auto simp: list_all2_Cons1)
  then have "company n = ''Voepass''"
    by (auto simp: connecting_offer_def first_segment_def display_name_def)
  moreover from s n have "return (example_result scenario_world) = [n]"
    by (simp add: sort_defs)
  moreover have "map (\<lambda>off. carrierCode (hd (segments (hd (itineraries off)))))
      (scenario_offers @ [connecting_offer]) = [''LA'', ''G3'', ''XX'', ''2Z'']"
    by (simp add: scenario_offers_def direct_offer_def connecting_offer_def)
  moreover have "map company (outbound (example_result scenario_world)) = [''GOL'', ''XX'', ''LATAM'']"
    by (simp add: scenario_result direct_result_def)
  ultimately show ?thesis by blast
qed

text \<open>
  An offer whose first segment has the empty carrier code: \<open>companies.get\<close> returns the
  code, and the company is the empty string.
\<close>

theorem empty_company:
  "map (\<lambda>off. carrierCode (hd (segments (hd (itineraries off))))) [direct_offer [] ''USD'' ''200'']
     = [[]] \<and>
   fetch_legs anonymous_world ''GRU'' ''JFK'' ''25/12/2024'' ''02/01/2025'' =
     (Inr ([direct_offer [] ''USD'' ''200''], []), fetched) \<and>
   run anonymous_world ''GRU'' ''JFK'' ''25/12/2024'' ''02/01/2025'' =
     (Inr \<lparr>outbound = [direct_result [] (Finite 1000)], return = []\<rparr>,
      fetched @ [RateCall ''USD'']) \<and>
   map company [direct_result [] (Finite 1000)] = [[]]"
  by (simp add: anonymous_run anonymous_fetch) (simp add: direct_result_def direct_offer_def)

subsection \<open>C10: times and stops come from the first segment\<close>

text \<open>
  Claim C10. For every raw offer, \<open>departure_time\<close>, \<open>arrival_time\<close> and \<open>stops\<close> of
  its normalized offer are those of the first segment of the offer's first itinerary,
  whatever segments and itineraries follow: for an itinerary of several segments the
  arrival is the first segment's arrival and \<open>stops\<close> is the first segment's
  \<open>numberOfStops\<close>.
\<close>

theorem first_segment_fields:
  assumes "fetch_legs w origin destination d1 d2 = (Inr (outs, rets), c)"
    and "run w origin destination d1 d2 = (Inr r, c')"
  shows "\<exists>out_n ret_n.
           outbound r = list_sort price_brl out_n \<and> return r = list_sort price_brl ret_n \<and>
           list_all2 (\<lambda>off n. \<exists>it its seg segs.
              itineraries off = it # its \<and> segments it = seg # segs \<and>
              departure_time n = departure_at seg \<and> arrival_time n = arrival_at seg \<and>
              stops n = numberOfStops seg) outs out_n \<and>
           list_all2 (\<lambda>off n. \<exists>it its seg segs.
              itineraries off = it # its \<and> segments it = seg # segs \<and>
              departure_time n = departure_at seg \<and> arrival_time n = arrival_at seg \<and>
              stops n = numberOfStops seg) rets ret_n"
proof -
  from run_success [OF assms] obtain table out_n ret_n where
    a: "list_all2 (\<lambda>off n. normalize_offer w table off = Inr n) outs out_n"
       "list_all2 (\<lambda>off n. normalize_offer w table off = Inr n) rets ret_n" and
    s: "outbound r = list_sort price_brl out_n" "return r = list_sort price_brl ret_n"
    by blast
  have f: "\<exists>it its seg segs.
      itineraries off = it # its \<and> segments it = seg # segs \<and>
      departure_time n = departure_at seg \<and> arrival_time n = arrival_at seg \<and>
      stops n = numberOfStops seg"
    if "normalize_offer w table off = Inr n" for off n
    using normalize_fields [OF that] by auto
  from a have "list_all2 (\<lambda>off n. \<exists>it its seg segs.
      itineraries off = it # its \<and> segments it = seg # segs \<and>
      departure_time n = departure_at seg \<and> arrival_time n = arrival_at seg \<and>
      stops n = numberOfStops seg) outs out_n"
    "list_all2 (\<lambda>off n. \<exists>it its seg segs.
      itineraries off = it # its \<and> segments it = seg # segs \<and>
      departure_time n = departure_at seg \<and> arrival_time n = arrival_at seg \<and>
      stops n = numberOfStops seg) rets ret_n"
    by (auto elim!: list_all2_mono dest: f)
  with s show ?thesis by blast
qed

theorem first_segment_fields_witness:
  "(\<exists>n. return (example_result scenario_world) = [n] \<and>
        departure_time n = ''2024-12-25T08:00:00'' \<and>
        arrival_time n = ''2024-12-25T09:45:00'' \<and> stops n = 0) \<and>
   map arrival_at (segments (hd (itineraries connecting_offer)))
     = [''2024-12-25T09:45:00'', ''2024-12-25T20:10:00'']"
proof -
  from first_segment_fields [OF scenario_fetch scenario_run [folded scenario_result]] obtain ret_n where
    s: "return (example_result scenario_world) = list_sort price_brl ret_n" and
    a: "list_all2 (\<lambda>off n. \<exists>it its seg segs.
              itineraries off = it # its \<and> segments it = seg # segs \<and>
              departure_time n = departure_at seg \<and> arrival_time n = arrival_at seg \<and>
              stops n = numberOfStops seg) [connecting_offer] ret_n"
    by blast
  from a obtain n where n: "ret_n = [n]" and
    "\<exists>it its seg segs.
       itineraries connecting_offer = it # its \<and> segments it = seg # segs \<and>
       departure_time n = departure_at seg \<and> arrival_time n = arrival_at seg \<and>
       stops n = numberOfStops seg"
    by (auto simp: list_all2_Cons1)
  then have "departure_time n = ''2024-12-25T08:00:00'' \<and>
        arrival_time n = ''2024-12-25T09:45:00'' \<and> stops n = 0"
    by (auto simp: connecting_offer_def)
  moreover from s n have "return (example_result scenario_world) = [n]"
    by (simp add: sort_defs)
  moreover have "map arrival_at (segments (hd (itineraries connecting_offer)))
     = [''2024-12-25T09:45:00'', ''2024-12-25T20:10:00'']"
    by (simp add: connecting_offer_def)
  ultimately show ?thesis by blast
qed

end
